theory Spec2Isabelle
  imports Main "HOL-Library.Word"
begin

section \<open>Bytes, characters and the telnet constants\<close>

type_synonym byte = "8 word"

text \<open>
  Modelled from the spec: the header telnet.h, which honeypot.c includes for the names
  IAC, DONT, DO, WONT, WILL, SB, SE, NOP and the option codes, is not among the sources.
  The spec names the same commands (escape byte IAC, WILL, WONT, DO, DONT, SB, SE, NOP, the
  echo, terminal-type and window-size options) without their numbers; the numbers below are
  the ones the telnet protocol assigns to these names (RFC 854, 857, 858, 1073, 1091, 1184,
  1572).
\<close>

definition IAC :: byte where "IAC = 255"
definition DONT :: byte where "DONT = 254"
definition DO :: byte where "DO = 253"
definition WONT :: byte where "WONT = 252"
definition WILL :: byte where "WILL = 251"
definition SB :: byte where "SB = 250"
definition NOP :: byte where "NOP = 241"
definition SE :: byte where "SE = 240"

definition ECHO :: byte where "ECHO = 1"
definition SGA :: byte where "SGA = 3"
definition TTYPE :: byte where "TTYPE = 24"
definition NAWS :: byte where "NAWS = 31"
definition LINEMODE :: byte where "LINEMODE = 34"
definition NEW_ENVIRON :: byte where "NEW_ENVIRON = 39"
definition SEND :: byte where "SEND = 1"

lemmas telnet_defs =
  IAC_def DONT_def DO_def WONT_def WILL_def SB_def NOP_def SE_def
  ECHO_def SGA_def TTYPE_def NAWS_def LINEMODE_def NEW_ENVIRON_def SEND_def

text \<open>The bytes of a string literal, as \<open>fprintf\<close> writes them.\<close>

definition bytes_of :: "string \<Rightarrow> byte list" where
  "bytes_of s = map (\<lambda>c. of_nat (of_char c)) s"

definition ESC :: byte where "ESC = 27"

section \<open>The process state\<close>

text \<open>
  The globals of honeypot.c and the two streams of the connection. \<open>inp\<close> holds the
  bytes the peer has sent and the process has not read yet, \<open>in_eof\<close> is the end-of-file
  indicator of the stream \<open>input\<close> (set by a read that finds the stream exhausted, read by
  \<open>feof(input)\<close>), \<open>stdin_eof\<close> the indicator of \<open>stdin\<close>, \<open>outp\<close>
  everything written to \<open>output\<close>, \<open>logfile\<close> everything written to the log, and
  \<open>alarm_pending\<close> whether an \<open>alarm\<close> is armed. The four tables are arrays of
  256 bytes indexed by an option code, hence total functions on bytes. Diagnostics written
  to stdout and stderr are left out.
\<close>

record world =
  inp :: "byte list"
  in_eof :: bool
  stdin_eof :: bool
  outp :: "byte list"
  logfile :: "byte list"
  alarm_pending :: bool
  telnet_options :: "byte \<Rightarrow> byte"
  telnet_willack :: "byte \<Rightarrow> byte"
  telnet_do_set :: "byte \<Rightarrow> byte"
  telnet_will_set :: "byte \<Rightarrow> byte"

text \<open>
  How a run of the process ends before its function returns. A function that can end so
  returns \<open>Inl (h, w)\<close>, with the state \<open>w\<close> of the process at that moment.
\<close>

datatype halt =
  Exit int     \<comment> \<open>\<open>_exit(status)\<close>\<close>
  | Fault      \<comment> \<open>an access outside an array, which C leaves undefined\<close>

definition EXIT_SUCCESS :: int where "EXIT_SUCCESS = 0"
definition EXIT_FAILURE :: int where "EXIT_FAILURE = 1"

definition put :: "byte list \<Rightarrow> world \<Rightarrow> world" where
  "put bs w = w\<lparr>outp := outp w @ bs\<rparr>"

text \<open>
  \<open>getc(input)\<close> stored into an \<open>unsigned char\<close>: at the end of the stream
  \<open>getc\<close> returns \<open>EOF\<close> (-1) and sets the indicator, and the conversion makes it 255.
\<close>

definition getc :: "world \<Rightarrow> byte \<times> world" where
  "getc w = (case inp w of
      [] \<Rightarrow> (255, w\<lparr>in_eof := True\<rparr>)
    | b # bs \<Rightarrow> (b, w\<lparr>inp := bs\<rparr>))"

definition newline :: "nat \<Rightarrow> world \<Rightarrow> world" where
  "newline n w = put (concat (replicate n [13, 0, 10])) w"

lemma put_frame [simp]:
  "inp (put bs w) = inp w"
  "in_eof (put bs w) = in_eof w"
  "stdin_eof (put bs w) = stdin_eof w"
  "logfile (put bs w) = logfile w"
  "alarm_pending (put bs w) = alarm_pending w"
  "outp (put bs w) = outp w @ bs"
  by (simp_all add: put_def)

lemma newline_frame [simp]:
  "inp (newline k w) = inp w"
  "in_eof (newline k w) = in_eof w"
  "stdin_eof (newline k w) = stdin_eof w"
  "logfile (newline k w) = logfile w"
  "alarm_pending (newline k w) = alarm_pending w"
  by (simp_all add: newline_def)

section \<open>The option registry\<close>

text \<open>
  \<open>send_command(cmd, opt)\<close>. Every caller passes an \<open>unsigned char\<close> command and an
  option code in 0..255, so both are bytes here.
\<close>

definition send_command :: "byte \<Rightarrow> byte \<Rightarrow> world \<Rightarrow> world" where
  "send_command cmd opt w =
    (if cmd = DO \<or> cmd = DONT then
       (if (cmd = DO \<and> telnet_do_set w opt \<noteq> DO) \<or> (cmd = DONT \<and> telnet_do_set w opt \<noteq> DONT)
        then put [IAC, cmd, opt] (w\<lparr>telnet_do_set := (telnet_do_set w)(opt := cmd)\<rparr>)
        else w)
     else if cmd = WILL \<or> cmd = WONT then
       (if (cmd = WILL \<and> telnet_will_set w opt \<noteq> WILL) \<or> (cmd = WONT \<and> telnet_will_set w opt \<noteq> WONT)
        then put [IAC, cmd, opt] (w\<lparr>telnet_will_set := (telnet_will_set w)(opt := cmd)\<rparr>)
        else w)
     else put [IAC, cmd] w)"

lemma send_command_frame [simp]:
  "inp (send_command cmd opt w) = inp w"
  "in_eof (send_command cmd opt w) = in_eof w"
  "stdin_eof (send_command cmd opt w) = stdin_eof w"
  "logfile (send_command cmd opt w) = logfile w"
  "alarm_pending (send_command cmd opt w) = alarm_pending w"
  "telnet_options (send_command cmd opt w) = telnet_options w"
  "telnet_willack (send_command cmd opt w) = telnet_willack w"
  by (simp_all add: send_command_def put_def)

text \<open>
  \<open>set_options()\<close>: the server's stances, then one \<open>send_command\<close> for every option
  with a stance, in the order of the option codes.
\<close>

definition announce :: "(world \<Rightarrow> byte \<Rightarrow> byte) \<Rightarrow> world \<Rightarrow> world" where
  "announce table w =
     foldl (\<lambda>w option. if table w option \<noteq> 0 then send_command (table w option) option w else w)
       w (map of_nat [0..<256])"

definition set_options :: "world \<Rightarrow> world" where
  "set_options w =
    (let w = w\<lparr>telnet_options := (telnet_options w)(ECHO := WILL)\<rparr>;
         w = w\<lparr>telnet_options := (telnet_options w)(SGA := WILL)\<rparr>;
         w = w\<lparr>telnet_options := (telnet_options w)(NEW_ENVIRON := WONT)\<rparr>;
         w = w\<lparr>telnet_willack := (telnet_willack w)(ECHO := DONT)\<rparr>;
         w = w\<lparr>telnet_willack := (telnet_willack w)(SGA := DO)\<rparr>;
         w = w\<lparr>telnet_willack := (telnet_willack w)(NAWS := DO)\<rparr>;
         w = w\<lparr>telnet_willack := (telnet_willack w)(TTYPE := DO)\<rparr>;
         w = w\<lparr>telnet_willack := (telnet_willack w)(LINEMODE := DONT)\<rparr>;
         w = w\<lparr>telnet_willack := (telnet_willack w)(NEW_ENVIRON := DO)\<rparr>;
         w = announce telnet_options w
     in announce telnet_willack w)"

section \<open>The negotiation engine\<close>

text \<open>
  The locals of \<open>negotiate_telnet\<close>. \<open>term_buf\<close> is the array \<open>term\<close> and
  \<open>done_count\<close> the counter \<open>done\<close> (both names are keywords of Isabelle); \<open>sb\<close>
  and \<open>term_buf\<close> are arrays of 1024 characters. The unused \<open>ttype\<close> is left out.
\<close>

record nstate =
  term_buf :: "byte list"
  done_count :: int
  sb_mode :: int
  do_echo :: int
  terminal_width :: int
  sb_len :: int
  sb :: "byte list"

text \<open>
  An \<open>int\<close> converted to \<open>size_t\<close> (64 bits, the value as an integer), as the
  comparisons with \<open>sizeof\<close> and with \<open>size - 1\<close> do, and a \<open>char\<close> converted to
  \<open>int\<close>: plain \<open>char\<close> is signed on the x86 targets the program is built for, and both
  readings agree below 128.
\<close>

definition to_size_t :: "int \<Rightarrow> int" where
  "to_size_t x = x mod 2 ^ 64"

definition char_to_int :: "byte \<Rightarrow> int" where
  "char_to_int b = sint b"

text \<open>
  \<open>strncpy(dest, src, n)\<close>, where \<open>src\<close> is the source array from the pointer on:
  the bytes before the first NUL among the first \<open>n\<close>, padded with NULs to \<open>n\<close> bytes.
  \<open>None\<close> when the copy would read past the end of the source array or write past the
  end of the destination.
\<close>

definition strncpy :: "byte list \<Rightarrow> byte list \<Rightarrow> nat \<Rightarrow> byte list option" where
  "strncpy dest src n =
    (let s = takeWhile (\<lambda>b. b \<noteq> 0) (take n src) in
     if length dest < n then None
     else if length s = n then Some (s @ drop n dest)
     else if length s < length src then Some (s @ replicate (n - length s) 0 @ drop n dest)
     else None)"

text \<open>The string a character array holds: its bytes before the first NUL.\<close>

definition c_string :: "byte list \<Rightarrow> byte list" where
  "c_string a = takeWhile (\<lambda>b. b \<noteq> 0) a"

text \<open>
  One pass through the body of the \<open>while\<close> loop of \<open>negotiate_telnet\<close>, in three
  parts: \<open>case SE\<close> of the \<open>switch\<close>, the \<open>switch\<close> on the command that follows
  an IAC (an \<open>if\<close> chain in the order of its \<open>case\<close> labels), and the body itself
  with the branch that stores a byte of a sub-negotiation.
\<close>

definition subneg_end :: "nstate \<times> world \<Rightarrow> halt \<times> world + nstate \<times> world" where
  "subneg_end s =
    (let (n, w) = s; n = n\<lparr>sb_mode := 0\<rparr> in
     if sb n = [] then Inl (Fault, w)
     else if sb n ! 0 = TTYPE then
       (case strncpy (term_buf n) (drop 2 (sb n)) 1023 of
          None \<Rightarrow> Inl (Fault, w)
        | Some t \<Rightarrow>
            if length t < 1024 then Inl (Fault, w)
            else Inr (n\<lparr>term_buf := t[1023 := 0], done_count := done_count n + 1\<rparr>,
                      w\<lparr>alarm_pending := False\<rparr>))
     else if sb n ! 0 = NAWS then
       (if length (sb n) < 3 then Inl (Fault, w)
        else Inr (n\<lparr>terminal_width := char_to_int (sb n ! 2), done_count := done_count n + 1\<rparr>,
                  w\<lparr>alarm_pending := False\<rparr>))
     else Inr (n, w))"

definition negotiate_command :: "byte \<Rightarrow> nstate \<times> world \<Rightarrow> halt \<times> world + nstate \<times> world" where
  "negotiate_command i s =
    (let (n, w) = s in
     if i = SE then subneg_end (n, w)
     else if i = NOP then Inr (n, send_command NOP 0 w)
     else if i = WILL \<or> i = WONT then
       (let (opt, w) = getc w;
            w = (if telnet_willack w opt = 0
                 then w\<lparr>telnet_willack := (telnet_willack w)(opt := WONT)\<rparr> else w);
            w = send_command (telnet_willack w opt) opt w;
            w = (if i = WILL \<and> opt = TTYPE then put [IAC, SB, TTYPE, SEND, IAC, SE] w else w)
        in Inr (n, w))
     else if i = DO \<or> i = DONT then
       (let (opt, w) = getc w;
            w = (if telnet_options w opt = 0
                 then w\<lparr>telnet_options := (telnet_options w)(opt := DONT)\<rparr> else w);
            w = send_command (telnet_options w opt) opt w;
            n = (if opt = ECHO then n\<lparr>do_echo := (if i = DO then 1 else 0)\<rparr> else n)
        in Inr (n, w))
     else if i = SB then Inr (n\<lparr>sb_mode := 1, sb_len := 0, sb := replicate 1024 0\<rparr>, w)
     else if i = IAC then Inr (n\<lparr>done_count := 2\<rparr>, w)
     else Inr (n, w))"

definition negotiate_body :: "nstate \<times> world \<Rightarrow> halt \<times> world + nstate \<times> world" where
  "negotiate_body s =
    (let (n, w) = s; (i, w) = getc w in
     if i = IAC then
       (let (i, w) = getc w in negotiate_command i (n, w))
     else if sb_mode n \<noteq> 0 then
       (if to_size_t (sb_len n) < 1023 then
          (if 0 \<le> sb_len n \<and> nat (sb_len n) < length (sb n)
           then Inr (n\<lparr>sb := (sb n)[nat (sb_len n) := i], sb_len := sb_len n + 1\<rparr>, w)
           else Inl (Fault, w))
        else Inr (n, w))
     else Inr (n, w))"

text \<open>
  Every pass either reads a byte the peer sent or, at the end of the stream, reads 255
  twice and sets the counter to 2.
\<close>

lemma getc_inp: "getc w = (c, w') \<Longrightarrow> length (inp w') \<le> length (inp w)"
  by (auto simp: getc_def split: list.splits)

lemma subneg_end_inp: "subneg_end (n, w) = Inr (n', w') \<Longrightarrow> inp w' = inp w"
  by (auto simp: subneg_end_def Let_def split: if_splits option.splits)

lemma negotiate_command_inp:
  "negotiate_command i (n, w) = Inr (n', w') \<Longrightarrow> length (inp w') \<le> length (inp w)"
  by (auto simp: negotiate_command_def Let_def dest: subneg_end_inp getc_inp
           split: if_splits prod.splits)

lemma negotiate_body_progress:
  assumes "negotiate_body (n, w) = Inr (n', w')"
  shows "length (inp w') < length (inp w) \<or> (inp w' = inp w \<and> inp w = [] \<and> done_count n' = 2)"
proof (cases "inp w")
  case Nil
  then have "negotiate_body (n, w) = Inr (n\<lparr>done_count := 2\<rparr>, w\<lparr>in_eof := True\<rparr>)"
    by (simp add: negotiate_body_def negotiate_command_def getc_def telnet_defs)
  with assms Nil show ?thesis by auto
next
  case (Cons b bs)
  show ?thesis
  proof (cases "b = IAC")
    case False
    with assms Cons show ?thesis
      by (auto simp: negotiate_body_def getc_def split: if_splits)
  next
    case True
    obtain c w1 where g: "getc (w\<lparr>inp := bs\<rparr>) = (c, w1)"
      by (cases "getc (w\<lparr>inp := bs\<rparr>)")
    with assms Cons True have "negotiate_command c (n, w1) = Inr (n', w')"
      by (simp add: negotiate_body_def getc_def)
    from negotiate_command_inp [OF this] getc_inp [OF g] Cons show ?thesis
      by simp
  qed
qed

text \<open>
  The loop \<open>while (!feof(stdin) && done < 2)\<close>. It tests the indicator of \<open>stdin\<close>
  and reads from \<open>input\<close>.
\<close>

function negotiate_loop :: "nstate \<times> world \<Rightarrow> halt \<times> world + nstate \<times> world" where
  "negotiate_loop (n, w) =
    (if \<not> stdin_eof w \<and> done_count n < 2 then
       (case negotiate_body (n, w) of
          Inl h \<Rightarrow> Inl h
        | Inr s \<Rightarrow> negotiate_loop s)
     else Inr (n, w))"
  by pat_completeness auto
termination
proof (relation "measure (\<lambda>(n, w). 2 * length (inp w) + (if done_count n < 2 then 1 else 0))")
  show "wf (measure (\<lambda>(n, w). 2 * length (inp w) + (if done_count n < 2 then 1 else 0)))"
    by simp
next
  fix n w s
  assume c: "\<not> stdin_eof w \<and> done_count n < 2" and b: "negotiate_body (n, w) = Inr s"
  obtain n' w' where s: "s = (n', w')" by (cases s)
  from negotiate_body_progress [OF b [unfolded s]] c
  show "(s, n, w) \<in> measure (\<lambda>(n, w). 2 * length (inp w) + (if done_count n < 2 then 1 else 0))"
    by (auto simp: s)
qed

declare negotiate_loop.simps [simp del]

text \<open>
  \<open>negotiate_telnet\<close>: the locals are initialised, \<open>set_options\<close> announces the
  stances, \<open>alarm(1)\<close> arms the timer and the loop runs.
\<close>

definition negotiate_start :: "world \<Rightarrow> nstate \<times> world" where
  "negotiate_start w =
    (\<lparr>term_buf = bytes_of ''ansi'' @ replicate 1020 0, done_count = 0, sb_mode = 0, do_echo = 0,
      terminal_width = 80, sb_len = 0, sb = replicate 1024 0\<rparr>,
     (set_options w)\<lparr>alarm_pending := True\<rparr>)"

definition negotiate_telnet :: "world \<Rightarrow> halt \<times> world + nstate \<times> world" where
  "negotiate_telnet w = negotiate_loop (negotiate_start w)"

text \<open>The state at the head of the loop after at most \<open>k\<close> passes.\<close>

primrec negotiate_passes :: "nat \<Rightarrow> nstate \<times> world \<Rightarrow> halt \<times> world + nstate \<times> world" where
  "negotiate_passes 0 s = Inr s"
| "negotiate_passes (Suc k) s =
    (if \<not> stdin_eof (snd s) \<and> done_count (fst s) < 2 then
       (case negotiate_body s of
          Inl h \<Rightarrow> Inl h
        | Inr s' \<Rightarrow> negotiate_passes k s')
     else Inr s)"

text \<open>
  \<open>SIGALRM_handler\<close>, which runs when the armed timer fires: it cancels the timer,
  restores the cursor, clears the screen, writes the banner and a line break, and ends the
  process with \<open>EXIT_FAILURE\<close>.
\<close>

definition esc :: "string \<Rightarrow> byte list" where
  "esc s = ESC # bytes_of s"

definition SIGALRM_handler :: "world \<Rightarrow> halt \<times> world" where
  "SIGALRM_handler w =
    (let w = w\<lparr>alarm_pending := False\<rparr>;
         w = put (esc ''[?25h'' @ esc ''[0m'' @ esc ''[H'' @ esc ''[2J'') w;
         w = put (esc ''[1;31m*** You must connect using a real telnet client. ***'' @ esc ''[0m'') w;
         w = newline 1 w
     in (Exit EXIT_FAILURE, w))"

section \<open>The line editor\<close>

text \<open>How one pass through the body of a loop ends.\<close>

datatype 'a flow =
  Stop halt world   \<comment> \<open>the process ends\<close>
  | Break 'a        \<comment> \<open>\<open>break\<close>\<close>
  | Continue 'a     \<comment> \<open>the next pass, after the loop's increment\<close>

text \<open>The decimal digits \<open>%d\<close> prints.\<close>

fun dec_nat :: "nat \<Rightarrow> byte list" where
  "dec_nat n = (if n < 10 then [48 + of_nat n] else dec_nat (n div 10) @ [48 + of_nat (n mod 10)])"

declare dec_nat.simps [simp del]

definition decimal :: "int \<Rightarrow> byte list" where
  "decimal i = (if i < 0 then 45 # dec_nat (nat (- i)) else dec_nat (nat i))"

text \<open>
  One pass through the body of the \<open>for\<close> loop of \<open>readline\<close>, on the cursor
  \<open>i\<close>, the caller's buffer and the process state. A pass that ends in \<open>continue\<close> or
  at the end of the body returns the cursor after the \<open>++i\<close> of the loop.
\<close>

definition readline_body :: "int \<Rightarrow> int \<times> byte list \<times> world \<Rightarrow> (int \<times> byte list \<times> world) flow" where
  "readline_body password s =
    (let (i, buffer, w) = s in
     if in_eof w then Stop (Exit EXIT_SUCCESS) w
     else
       (let (c, w) = getc w;
            (c, w) = (if c = 0 then getc w else (c, w)) in
        if c = 10 \<or> c = 13 then Break (i, buffer, newline 1 w)
        else if c = 8 \<or> c = 127 then
          (if i = 0 then Continue (- 1 + 1, buffer, w)
           else if password \<noteq> 0 then
             Continue (- 1 + 1, buffer, put (esc ''['' @ decimal i @ bytes_of ''D'' @ esc ''[K'') w)
           else Continue (i - 2 + 1, buffer, put [8, 32, 8] w))
        else if c = 255 then Stop (Exit EXIT_SUCCESS) w
        else if 0 \<le> i \<and> nat i < length buffer then
          Continue (i + 1, buffer[nat i := c], put [if password \<noteq> 0 then 42 else c] w)
        else Stop Fault w))"

text \<open>\<open>size - 1\<close> in \<open>size_t\<close> arithmetic, which wraps around at 0.\<close>

definition size_minus_1 :: "nat \<Rightarrow> int" where
  "size_minus_1 bufsize = (int bufsize - 1) mod 2 ^ 64"

lemma readline_body_progress:
  assumes "readline_body password (i, buffer, w) = Continue (i', buffer', w')"
  shows "length (inp w') < length (inp w)"
  using assms
  by (cases "inp w"; cases "tl (inp w)")
     (auto simp: readline_body_def getc_def put_def Let_def split: if_splits prod.splits)

text \<open>The loop \<open>for (i = 0; i < size - 1; ++i)\<close>, from the cursor \<open>i\<close> on.\<close>

function readline_loop ::
  "nat \<Rightarrow> int \<Rightarrow> int \<times> byte list \<times> world \<Rightarrow> halt \<times> world + int \<times> byte list \<times> world" where
  "readline_loop bufsize password (i, buffer, w) =
    (if to_size_t i < size_minus_1 bufsize then
       (case readline_body password (i, buffer, w) of
          Stop h w' \<Rightarrow> Inl (h, w')
        | Break s \<Rightarrow> Inr s
        | Continue s \<Rightarrow> readline_loop bufsize password s)
     else Inr (i, buffer, w))"
  by pat_completeness auto
termination
proof (relation "measure (\<lambda>(bufsize, password, i, buffer, w). length (inp w))")
  show "wf (measure (\<lambda>(bufsize, password, i, buffer, w). length (inp w)))"
    by simp
next
  fix bufsize :: nat and password i :: int and buffer :: "byte list" and w :: world
    and s :: "int \<times> byte list \<times> world"
  assume b: "readline_body password (i, buffer, w) = Continue s"
  obtain i' buffer' w' where s: "s = (i', buffer', w')" by (cases s)
  from readline_body_progress [OF b [unfolded s]]
  show "((bufsize, password, s), bufsize, password, i, buffer, w)
          \<in> measure (\<lambda>(bufsize, password, i, buffer, w). length (inp w))"
    by (simp add: s)
qed

declare readline_loop.simps [simp del]

text \<open>The state at the head of the loop after at most \<open>k\<close> passes.\<close>

primrec readline_passes ::
  "nat \<Rightarrow> nat \<Rightarrow> int \<Rightarrow> int \<times> byte list \<times> world \<Rightarrow> (int \<times> byte list \<times> world) flow" where
  "readline_passes 0 bufsize password s = Continue s"
| "readline_passes (Suc k) bufsize password s =
    (if to_size_t (fst s) < size_minus_1 bufsize then
       (case readline_body password s of
          Stop h w' \<Rightarrow> Stop h w'
        | Break s' \<Rightarrow> Break s'
        | Continue s' \<Rightarrow> readline_passes k bufsize password s')
     else Break s)"

text \<open>
  \<open>readline(buffer, size, password)\<close>: the cursor is shown, the loop runs, the buffer
  is terminated at the cursor and the cursor is hidden.
\<close>

definition readline :: "byte list \<Rightarrow> nat \<Rightarrow> int \<Rightarrow> world \<Rightarrow> halt \<times> world + byte list \<times> world" where
  "readline buffer bufsize password w =
    (case readline_loop bufsize password (0, buffer, put (esc ''[?25h'') w) of
       Inl e \<Rightarrow> Inl e
     | Inr (i, buffer, w) \<Rightarrow>
         if 0 \<le> i \<and> nat i < length buffer
         then Inr (buffer[nat i := 0], put (esc ''[?25l'') w)
         else Inl (Fault, w))"




section \<open>The session\<close>




text \<open>
  What the \<open>while (1)\<close> loop of \<open>handle_connection\<close> does between the second
  \<open>readline\<close> and the next pass: the line of the log, the rejection, the cleared screen
  and the hint for a user name without \<open>@\<close>. The pauses of \<open>sleep\<close> are left out.
\<close>

definition reject :: "byte list \<Rightarrow> byte list \<Rightarrow> byte list \<Rightarrow> world \<Rightarrow> world" where
  "reject ipaddr username password w =
    (let w = newline 2 w;
         w = w\<lparr>logfile := logfile w @ ipaddr @ bytes_of '' - '' @ c_string username @
                  bytes_of '':'' @ c_string password @ [10]\<rparr>;
         w = newline 1 w;
         w = put (esc ''[1;31mInvalid credentials. Please try again.'' @ esc ''[0m'') w;
         w = put (esc ''[H'' @ esc ''[2J'' @ esc ''[?25l'') w;
         w = put (bytes_of ''                  '' @ esc ''[1mkexec.com Administration Console'' @ esc ''[0m'') w;
         w = newline 2 w
     in if 64 \<in> set (c_string username) then w
        else newline 2
          (put (esc ''[1;34mBe sure to include the domain in your username (e.g. @gmail.com).'') w))"

lemma reject_inp [simp]: "inp (reject ipaddr username password w) = inp w"
  by (simp add: reject_def Let_def)




text \<open>
  The state of a forked child when \<open>handle_connection\<close> starts on a connection whose peer
  sends \<open>bs\<close> and then closes: the tables are zero, nothing is written, no timer is armed.
\<close>

definition initial_world :: "byte list \<Rightarrow> world" where
  "initial_world bs =
    \<lparr>inp = bs, in_eof = False, stdin_eof = False, outp = [], logfile = [], alarm_pending = False,
     telnet_options = (\<lambda>_. 0), telnet_willack = (\<lambda>_. 0),
     telnet_do_set = (\<lambda>_. 0), telnet_will_set = (\<lambda>_. 0)\<rparr>"

section \<open>Invariants and predicates of the statements\<close>

text \<open>
  What holds of the two arrays at the head of every pass: both have their 1024 characters,
  the write position is at most 1023, and the sub-negotiation buffer is zero from the write
  position on.
\<close>

definition buffers_ok :: "nstate \<Rightarrow> bool" where
  "buffers_ok n =
    (length (sb n) = 1024 \<and> length (term_buf n) = 1024 \<and> 0 \<le> sb_len n \<and> sb_len n \<le> 1023 \<and>
     drop (nat (sb_len n)) (sb n) = replicate (1024 - nat (sb_len n)) 0)"

text \<open>
  The buffer after the bytes \<open>p\<close> of a payload have arrived: the first \<open>1023 - sb_len\<close>
  of them stand at the write position, the others are gone.
\<close>

definition store_payload :: "byte list \<Rightarrow> nstate \<Rightarrow> nstate" where
  "store_payload p n =
    (let k = nat (sb_len n); q = take (1023 - k) p in
     n\<lparr>sb := take k (sb n) @ q @ drop (k + length q) (sb n), sb_len := sb_len n + int (length q)\<rparr>)"

text \<open>
  What holds of the cursor and the buffer at the head of every pass of the loop of
  \<open>readline\<close>.
\<close>

definition cursor_ok :: "nat \<Rightarrow> int \<times> byte list \<times> world \<Rightarrow> bool" where
  "cursor_ok bufsize s = (0 \<le> fst s \<and> fst s \<le> int bufsize - 1 \<and> length (fst (snd s)) = bufsize)"

text \<open>
  The bytes the editor stores: neither NUL, a line terminator, backspace, delete nor 255.
  \<open>echo\<close> is the character written back for a stored byte.
\<close>

definition plain :: "byte \<Rightarrow> bool" where
  "plain c = (c \<noteq> 0 \<and> c \<noteq> 10 \<and> c \<noteq> 13 \<and> c \<noteq> 8 \<and> c \<noteq> 127 \<and> c \<noteq> 255)"

definition echo :: "int \<Rightarrow> byte \<Rightarrow> byte" where
  "echo password c = (if password \<noteq> 0 then 42 else c)"

section \<open>The sub-negotiation buffer\<close>

lemma to_size_t_id: "0 \<le> x \<Longrightarrow> x \<le> 1023 \<Longrightarrow> to_size_t x = x"
  by (simp add: to_size_t_def)

lemma buffers_ok_start: "buffers_ok (fst (negotiate_start w))"
  by (simp add: buffers_ok_def negotiate_start_def bytes_of_def)

lemma buffers_ok_last: "buffers_ok n \<Longrightarrow> sb n ! 1023 = 0"
proof -
  assume ok: "buffers_ok n"
  let ?k = "nat (sb_len n)"
  from ok have k: "?k \<le> 1023" and len: "length (sb n) = 1024"
    and d: "drop ?k (sb n) = replicate (1024 - ?k) 0"
    by (auto simp: buffers_ok_def)
  have "sb n ! 1023 = drop ?k (sb n) ! (1023 - ?k)"
    using k len by simp
  also have "\<dots> = 0"
    using k by (simp add: d)
  finally show ?thesis .
qed

lemma takeWhile_stops:
  assumes "i < length xs" "\<not> P (xs ! i)"
  shows "length (takeWhile P xs) \<le> i"
proof (rule ccontr)
  assume "\<not> length (takeWhile P xs) \<le> i"
  then have lt: "i < length (takeWhile P xs)" by simp
  then have "takeWhile P xs ! i \<in> set (takeWhile P xs)" by simp
  moreover have "takeWhile P xs ! i = xs ! i" using lt by (rule takeWhile_nth)
  ultimately have "P (xs ! i)" by (auto dest: set_takeWhileD)
  with assms show False by simp
qed

lemma strncpy_sb:
  assumes "length dest = 1024" "length sbuf = 1024" "sbuf ! 1023 = 0"
  shows "strncpy dest (drop 2 sbuf) 1023 =
           Some (c_string (drop 2 sbuf) @ replicate (1023 - length (c_string (drop 2 sbuf))) 0 @
                 drop 1023 dest)"
    and "length (c_string (drop 2 sbuf)) \<le> 1021"
proof -
  have "length (takeWhile (\<lambda>b. b \<noteq> 0) (drop 2 sbuf)) \<le> 1021"
    by (rule takeWhile_stops) (use assms in simp_all)
  then show le: "length (c_string (drop 2 sbuf)) \<le> 1021"
    by (simp add: c_string_def)
  show "strncpy dest (drop 2 sbuf) 1023 =
           Some (c_string (drop 2 sbuf) @ replicate (1023 - length (c_string (drop 2 sbuf))) 0 @
                 drop 1023 dest)"
    using le assms by (simp add: strncpy_def c_string_def Let_def)
qed

lemma c_string_padded:
  assumes "\<forall>b\<in>set s. b \<noteq> 0" "0 < k"
  shows "c_string (s @ replicate k 0 @ d) = s"
  using assms by (cases k) (simp_all add: c_string_def takeWhile_append2)

lemma c_string_nonzero: "\<forall>b\<in>set (c_string a). b \<noteq> 0"
  by (auto simp: c_string_def dest: set_takeWhileD)

lemma buffers_ok_store:
  assumes "buffers_ok n" "sb_len n < 1023"
  shows "buffers_ok (n\<lparr>sb := (sb n)[nat (sb_len n) := b], sb_len := sb_len n + 1\<rparr>)"
proof -
  let ?k = "nat (sb_len n)"
  from assms have k: "?k < 1023" and len: "length (sb n) = 1024" and nn: "0 \<le> sb_len n"
    and d: "drop ?k (sb n) = replicate (1024 - ?k) 0"
    by (auto simp: buffers_ok_def)
  have "drop (Suc ?k) ((sb n)[?k := b]) = drop (Suc ?k) (sb n)"
    by simp
  also have "\<dots> = drop 1 (drop ?k (sb n))"
    by simp
  also have "\<dots> = replicate (1024 - Suc ?k) 0"
    by (simp add: d)
  finally have "drop (Suc ?k) ((sb n)[?k := b]) = replicate (1024 - Suc ?k) 0" .
  moreover have "nat (sb_len n + 1) = Suc ?k"
    using nn by simp
  ultimately show ?thesis
    using assms by (simp add: buffers_ok_def)
qed

lemma subneg_end_ok:
  assumes ok: "buffers_ok n"
  shows "\<exists>n' w'. subneg_end (n, w) = Inr (n', w') \<and> buffers_ok n'"
proof -
  from ok have len: "length (sb n) = 1024" "length (term_buf n) = 1024"
    by (auto simp: buffers_ok_def)
  note cp = strncpy_sb [OF len(2) len(1) buffers_ok_last [OF ok]]
  have ne: "sb n \<noteq> []" using len by auto
  show ?thesis
  proof (cases "sb n ! 0 = TTYPE")
    case True
    then show ?thesis
      using ok ne cp by (simp add: subneg_end_def buffers_ok_def Let_def)
  next
    case False
    then show ?thesis
      using ok ne by (simp add: subneg_end_def buffers_ok_def Let_def)
  qed
qed

lemma negotiate_command_ok:
  assumes ok: "buffers_ok n"
  shows "\<exists>n' w'. negotiate_command i (n, w) = Inr (n', w') \<and> buffers_ok n'"
proof (cases "i = SE")
  case True
  with subneg_end_ok [OF ok] show ?thesis
    by (simp add: negotiate_command_def)
next
  case False
  have "buffers_ok (n\<lparr>do_echo := e\<rparr>)" "buffers_ok (n\<lparr>done_count := c\<rparr>)"
    "buffers_ok (n\<lparr>sb_mode := 1, sb_len := 0, sb := replicate 1024 0\<rparr>)" for e c
    using ok by (simp_all add: buffers_ok_def)
  with False ok show ?thesis
    by (auto simp: negotiate_command_def Let_def split: prod.splits)
qed

lemma negotiate_body_ok:
  assumes ok: "buffers_ok n"
  shows "\<exists>n' w'. negotiate_body (n, w) = Inr (n', w') \<and> buffers_ok n'"
proof -
  obtain i w1 where g: "getc w = (i, w1)" by (cases "getc w")
  show ?thesis
  proof (cases "i = IAC")
    case True
    obtain c w2 where "getc w1 = (c, w2)" by (cases "getc w1")
    with g True negotiate_command_ok [OF ok, of c w2] show ?thesis
      by (simp add: negotiate_body_def)
  next
    case False
    from ok have "length (sb n) = 1024" "0 \<le> sb_len n" "sb_len n \<le> 1023"
      by (auto simp: buffers_ok_def)
    moreover from this have "nat (sb_len n) < 1024"
      by linarith
    ultimately show ?thesis
      using g False ok buffers_ok_store [OF ok, of i]
      by (cases "sb_len n < 1023") (simp_all add: negotiate_body_def to_size_t_id)
  qed
qed

lemma negotiate_passes_ok:
  "buffers_ok (fst s) \<Longrightarrow> \<exists>n' w'. negotiate_passes k s = Inr (n', w') \<and> buffers_ok n'"
proof (induction k arbitrary: s)
  case 0
  then show ?case by (cases s) simp
next
  case (Suc k)
  obtain n w where s: "s = (n, w)" by (cases s)
  with Suc.prems have ok: "buffers_ok n" by simp
  from negotiate_body_ok [OF ok, of w] obtain n1 w1
    where b: "negotiate_body (n, w) = Inr (n1, w1)" and ok1: "buffers_ok n1" by blast
  from Suc.IH [of "(n1, w1)"] ok1 b ok show ?case
    by (simp add: s)
qed

lemma negotiate_loop_ok:
  "buffers_ok n \<Longrightarrow> \<exists>n' w'. negotiate_loop (n, w) = Inr (n', w') \<and> buffers_ok n'"
proof (induction "(n, w)" arbitrary: n w rule: negotiate_loop.induct)
  case (1 n w)
  note [simp] = negotiate_loop.simps
  show ?case
  proof (cases "\<not> stdin_eof w \<and> done_count n < 2")
    case False
    with "1.prems" show ?thesis by auto
  next
    case True
    from negotiate_body_ok [OF "1.prems", of w] obtain n1 w1
      where b: "negotiate_body (n, w) = Inr (n1, w1)" and ok1: "buffers_ok n1" by blast
    from "1.hyps" [OF True b ok1] True b show ?thesis
      by simp
  qed
qed

lemma negotiate_body_data:
  assumes "buffers_ok n" "sb_mode n \<noteq> 0" "inp w = b # rest" "b \<noteq> IAC"
  shows "negotiate_body (n, w) =
           Inr (if sb_len n < 1023
                then n\<lparr>sb := (sb n)[nat (sb_len n) := b], sb_len := sb_len n + 1\<rparr> else n,
                w\<lparr>inp := rest\<rparr>)"
proof -
  from assms(1) have "length (sb n) = 1024" "0 \<le> sb_len n" "sb_len n \<le> 1023"
    by (auto simp: buffers_ok_def)
  moreover from this have "nat (sb_len n) < 1024"
    by linarith
  ultimately show ?thesis
    using assms by (simp add: negotiate_body_def getc_def to_size_t_id)
qed

lemma store_payload_Nil: "store_payload [] n = n"
  by (simp add: store_payload_def)

lemma store_payload_Cons:
  assumes "buffers_ok n"
  shows "store_payload (b # p) n =
           store_payload p (if sb_len n < 1023
             then n\<lparr>sb := (sb n)[nat (sb_len n) := b], sb_len := sb_len n + 1\<rparr> else n)"
proof (cases "sb_len n < 1023")
  case False
  with assms have "nat (sb_len n) = 1023" by (auto simp: buffers_ok_def)
  with False show ?thesis by (simp add: store_payload_def)
next
  case True
  let ?k = "nat (sb_len n)"
  from assms True have k: "?k < 1023" and len: "length (sb n) = 1024" and nn: "0 \<le> sb_len n"
    by (auto simp: buffers_ok_def)
  have k1: "nat (sb_len n + 1) = Suc ?k" using nn by simp
  have "1023 - ?k = Suc (1023 - Suc ?k)"
    using k by simp
  then have t: "take (1023 - ?k) (b # p) = b # take (1023 - Suc ?k) p"
    by (simp only: take_Suc_Cons)
  have tk: "take (Suc ?k) ((sb n)[?k := b]) = take ?k (sb n) @ [b]"
    using k len by (simp add: take_Suc_conv_app_nth)
  have m: "min (Suc (length p)) (1023 - ?k) = Suc (min (length p) (1022 - ?k))"
    using k by linarith
  show ?thesis
    using True k by (simp add: store_payload_def Let_def k1 t tk m)
qed

lemma negotiate_loop_payload:
  assumes "buffers_ok n" "sb_mode n \<noteq> 0" "done_count n < 2" "\<not> stdin_eof w"
    and "\<forall>b\<in>set p. b \<noteq> IAC"
  shows "negotiate_loop (n, w\<lparr>inp := p @ rest\<rparr>) =
           negotiate_loop (store_payload p n, w\<lparr>inp := rest\<rparr>)"
  using assms
proof (induction p arbitrary: n)
  case Nil
  then show ?case by (simp add: store_payload_Nil)
next
  case (Cons b p)
  let ?n = "if sb_len n < 1023
            then n\<lparr>sb := (sb n)[nat (sb_len n) := b], sb_len := sb_len n + 1\<rparr> else n"
  from Cons.prems have b: "b \<noteq> IAC" and p: "\<forall>b\<in>set p. b \<noteq> IAC" by simp_all
  have body: "negotiate_body (n, w\<lparr>inp := (b # p) @ rest\<rparr>) = Inr (?n, w\<lparr>inp := p @ rest\<rparr>)"
    using negotiate_body_data [OF Cons.prems(1,2) _ b, of "w\<lparr>inp := (b # p) @ rest\<rparr>" "p @ rest"]
    by simp
  have ok': "buffers_ok ?n"
    using Cons.prems(1) buffers_ok_store [OF Cons.prems(1)] by simp
  have m': "sb_mode ?n \<noteq> 0" "done_count ?n < 2"
    using Cons.prems(2,3) by simp_all
  have "negotiate_loop (n, w\<lparr>inp := (b # p) @ rest\<rparr>) = negotiate_loop (?n, w\<lparr>inp := p @ rest\<rparr>)"
    using Cons.prems(3,4) body by (subst negotiate_loop.simps) simp
  also have "\<dots> = negotiate_loop (store_payload p ?n, w\<lparr>inp := rest\<rparr>)"
    by (rule Cons.IH [OF ok' m' Cons.prems(4) p])
  also have "store_payload p ?n = store_payload (b # p) n"
    by (rule store_payload_Cons [OF Cons.prems(1), symmetric])
  finally show ?case .
qed

lemma store_payload_take:
  "sb_len n = 0 \<Longrightarrow> store_payload (take 1023 p) n = store_payload p n"
  by (simp add: store_payload_def)

lemma negotiate_loop_truncates:
  assumes "buffers_ok n" "sb_mode n \<noteq> 0" "sb_len n = 0" "done_count n < 2" "\<not> stdin_eof w"
    and "\<forall>b\<in>set p. b \<noteq> IAC"
  shows "negotiate_loop (n, w\<lparr>inp := p @ rest\<rparr>) =
           negotiate_loop (n, w\<lparr>inp := take 1023 p @ rest\<rparr>)"
proof -
  have t: "\<forall>b\<in>set (take 1023 p). b \<noteq> IAC"
    using assms(6) by (auto dest: in_set_takeD)
  have "negotiate_loop (n, w\<lparr>inp := p @ rest\<rparr>) = negotiate_loop (store_payload p n, w\<lparr>inp := rest\<rparr>)"
    by (rule negotiate_loop_payload [OF assms(1,2,4,5,6)])
  also have "store_payload p n = store_payload (take 1023 p) n"
    by (rule store_payload_take [OF assms(3), symmetric])
  also have "negotiate_loop (store_payload (take 1023 p) n, w\<lparr>inp := rest\<rparr>) =
               negotiate_loop (n, w\<lparr>inp := take 1023 p @ rest\<rparr>)"
    by (rule negotiate_loop_payload [OF assms(1,2,4,5) t, symmetric])
  finally show ?thesis .
qed

section \<open>Passes of the negotiation loop\<close>

lemma announce_frame:
  "inp (announce t w) = inp w \<and> in_eof (announce t w) = in_eof w \<and>
   stdin_eof (announce t w) = stdin_eof w \<and> logfile (announce t w) = logfile w \<and>
   alarm_pending (announce t w) = alarm_pending w \<and>
   telnet_options (announce t w) = telnet_options w \<and>
   telnet_willack (announce t w) = telnet_willack w"
proof -
  have "inp (foldl (\<lambda>w option. if t w option \<noteq> 0 then send_command (t w option) option w else w) w xs) = inp w \<and>
        in_eof (foldl (\<lambda>w option. if t w option \<noteq> 0 then send_command (t w option) option w else w) w xs) = in_eof w \<and>
        stdin_eof (foldl (\<lambda>w option. if t w option \<noteq> 0 then send_command (t w option) option w else w) w xs) = stdin_eof w \<and>
        logfile (foldl (\<lambda>w option. if t w option \<noteq> 0 then send_command (t w option) option w else w) w xs) = logfile w \<and>
        alarm_pending (foldl (\<lambda>w option. if t w option \<noteq> 0 then send_command (t w option) option w else w) w xs) = alarm_pending w \<and>
        telnet_options (foldl (\<lambda>w option. if t w option \<noteq> 0 then send_command (t w option) option w else w) w xs) = telnet_options w \<and>
        telnet_willack (foldl (\<lambda>w option. if t w option \<noteq> 0 then send_command (t w option) option w else w) w xs) = telnet_willack w"
    for xs
    by (induction xs arbitrary: w) simp_all
  then show ?thesis
    by (simp add: announce_def)
qed

lemma set_options_frame [simp]:
  "inp (set_options w) = inp w"
  "in_eof (set_options w) = in_eof w"
  "stdin_eof (set_options w) = stdin_eof w"
  "logfile (set_options w) = logfile w"
  "alarm_pending (set_options w) = alarm_pending w"
  by (simp_all add: set_options_def Let_def announce_frame)



lemma negotiate_body_IAC:
  assumes "inp w = IAC # c # rest"
  shows "negotiate_body (n, w) = negotiate_command c (n, w\<lparr>inp := rest\<rparr>)"
  using assms by (simp add: negotiate_body_def getc_def)

lemma negotiate_body_eof:
  assumes "inp w = []"
  shows "negotiate_body (n, w) = Inr (n\<lparr>done_count := 2\<rparr>, w\<lparr>in_eof := True\<rparr>)"
  using assms by (simp add: negotiate_body_def negotiate_command_def getc_def telnet_defs)


lemma negotiate_command_SB:
  "negotiate_command SB (n, w) = Inr (n\<lparr>sb_mode := 1, sb_len := 0, sb := replicate 1024 0\<rparr>, w)"
  by (simp add: negotiate_command_def telnet_defs)

lemma negotiate_command_SE: "negotiate_command SE (n, w) = subneg_end (n, w)"
  by (simp add: negotiate_command_def)



lemma c_string_zeros: "c_string (xs @ replicate k 0) = c_string xs"
  by (induction xs) (simp_all add: c_string_def takeWhile_replicate)

lemma subneg_end_ttype:
  assumes "buffers_ok n" "sb n ! 0 = TTYPE"
  shows "\<exists>t. subneg_end (n, w) =
           Inr (n\<lparr>sb_mode := 0, term_buf := t, done_count := done_count n + 1\<rparr>,
                w\<lparr>alarm_pending := False\<rparr>) \<and>
         length t = 1024 \<and> c_string t = c_string (drop 2 (sb n))"
proof -
  let ?s = "c_string (drop 2 (sb n))"
  let ?t = "(?s @ replicate (1023 - length ?s) 0 @ drop 1023 (term_buf n))[1023 := 0]"
  from assms(1) have len: "length (sb n) = 1024" "length (term_buf n) = 1024"
    by (auto simp: buffers_ok_def)
  note cp = strncpy_sb [OF len(2) len(1) buffers_ok_last [OF assms(1)]]
  have ne: "sb n \<noteq> []" using len by auto
  have "subneg_end (n, w) =
          Inr (n\<lparr>sb_mode := 0, term_buf := ?t, done_count := done_count n + 1\<rparr>,
               w\<lparr>alarm_pending := False\<rparr>)"
    using assms(2) ne cp len by (simp add: subneg_end_def Let_def)
  moreover have "length ?t = 1024"
    using cp(2) len by simp
  moreover have "c_string ?t = ?s"
  proof -
    have "?t = ?s @ replicate (1023 - length ?s) 0 @ (drop 1023 (term_buf n))[0 := 0]"
      using cp(2) by (simp add: list_update_append)
    moreover have "0 < 1023 - length ?s" using cp(2) by simp
    ultimately show ?thesis
      using c_string_padded [OF c_string_nonzero, of "1023 - length ?s" "drop 2 (sb n)"]
      by simp
  qed
  ultimately show ?thesis by blast
qed

lemma subneg_end_naws:
  assumes "buffers_ok n" "sb n ! 0 = NAWS"
  shows "subneg_end (n, w) =
           Inr (n\<lparr>sb_mode := 0, terminal_width := char_to_int (sb n ! 2),
                  done_count := done_count n + 1\<rparr>,
                w\<lparr>alarm_pending := False\<rparr>)"
proof -
  from assms(1) have "length (sb n) = 1024" by (simp add: buffers_ok_def)
  then show ?thesis
    using assms(2) by (auto simp: subneg_end_def Let_def telnet_defs)
qed

text \<open>The buffer after SB and the payload \<open>p\<close>.\<close>

lemma store_payload_fresh:
  "store_payload p (n\<lparr>sb_mode := 1, sb_len := 0, sb := replicate 1024 0\<rparr>) =
     n\<lparr>sb_mode := 1, sb_len := int (length (take 1023 p)),
       sb := take 1023 p @ replicate (1024 - length (take 1023 p)) 0\<rparr>"
  by (simp add: store_payload_def)

lemma buffers_ok_fresh:
  assumes "buffers_ok n"
  shows "buffers_ok (n\<lparr>sb_mode := 1, sb_len := 0, sb := replicate 1024 0\<rparr>)"
  using assms by (simp add: buffers_ok_def)

lemma buffers_ok_stored:
  assumes "buffers_ok n"
  shows "buffers_ok (n\<lparr>sb_mode := 1, sb_len := int (length (take 1023 p)),
       sb := take 1023 p @ replicate (1024 - length (take 1023 p)) 0\<rparr>)"
  using assms by (simp add: buffers_ok_def)




lemma getc_frame [simp]:
  "alarm_pending (snd (getc w)) = alarm_pending w"
  "stdin_eof (snd (getc w)) = stdin_eof w"
  "outp (snd (getc w)) = outp w"
  "logfile (snd (getc w)) = logfile w"
  by (simp_all add: getc_def split: list.splits)

lemma subneg_end_armed:
  assumes "subneg_end (n, v) = Inr (n', v')" "alarm_pending v'"
  shows "alarm_pending v \<and> term_buf n' = term_buf n \<and> terminal_width n' = terminal_width n"
  using assms by (auto simp: subneg_end_def Let_def split: if_splits option.splits)

lemma negotiate_command_armed:
  assumes "negotiate_command c (n, v) = Inr (n', v')" "alarm_pending v'"
  shows "alarm_pending v \<and> term_buf n' = term_buf n \<and> terminal_width n' = terminal_width n"
proof (cases "c = SE")
  case True
  with assms subneg_end_armed show ?thesis
    by (simp add: negotiate_command_def)
next
  case False
  obtain opt v1 where g: "getc v = (opt, v1)" by (cases "getc v")
  then have "alarm_pending v1 = alarm_pending v"
    using getc_frame(1) [of v] by simp
  with assms False g show ?thesis
    by (auto simp: negotiate_command_def Let_def split: if_splits)
qed

lemma negotiate_body_armed:
  assumes "negotiate_body (n, v) = Inr (n', v')" "alarm_pending v'"
  shows "alarm_pending v \<and> term_buf n' = term_buf n \<and> terminal_width n' = terminal_width n"
proof -
  obtain i v1 where g1: "getc v = (i, v1)" by (cases "getc v")
  obtain c v2 where g2: "getc v1 = (c, v2)" by (cases "getc v1")
  have a: "alarm_pending v1 = alarm_pending v" "alarm_pending v2 = alarm_pending v1"
    using getc_frame(1) [of v] getc_frame(1) [of v1] g1 g2 by simp_all
  show ?thesis
  proof (cases "i = IAC")
    case True
    with assms g1 g2 have "negotiate_command c (n, v2) = Inr (n', v')"
      by (simp add: negotiate_body_def)
    from negotiate_command_armed [OF this assms(2)] a show ?thesis by simp
  next
    case False
    with assms g1 a show ?thesis
      by (auto simp: negotiate_body_def split: if_splits)
  qed
qed


lemma c_string_ansi: "c_string (bytes_of ''ansi'' @ replicate 1020 0) = bytes_of ''ansi''"
  by (simp add: c_string_zeros) (simp add: c_string_def bytes_of_def)


lemma negotiate_start_facts:
  "buffers_ok (fst (negotiate_start w))"
  "done_count (fst (negotiate_start w)) = 0"
  "terminal_width (fst (negotiate_start w)) = 80"
  "c_string (term_buf (fst (negotiate_start w))) = bytes_of ''ansi''"
  "snd (negotiate_start w) = (set_options w)\<lparr>alarm_pending := True\<rparr>"
  by (simp_all add: buffers_ok_start) (simp_all add: negotiate_start_def c_string_ansi)

lemma negotiate_passes_step:
  assumes "\<not> stdin_eof w" "done_count n < 2" "negotiate_body (n, w) = Inr s"
  shows "negotiate_passes (Suc k) (n, w) = negotiate_passes k s"
  using assms by simp

lemma negotiate_passes_payload:
  assumes "buffers_ok n" "sb_mode n \<noteq> 0" "done_count n < 2" "\<not> stdin_eof w"
    and "\<forall>b\<in>set p. b \<noteq> IAC"
  shows "negotiate_passes (length p + k) (n, w\<lparr>inp := p @ rest\<rparr>) =
           negotiate_passes k (store_payload p n, w\<lparr>inp := rest\<rparr>)"
  using assms
proof (induction p arbitrary: n)
  case Nil
  then show ?case by (simp add: store_payload_Nil)
next
  case (Cons b p)
  let ?n = "if sb_len n < 1023
            then n\<lparr>sb := (sb n)[nat (sb_len n) := b], sb_len := sb_len n + 1\<rparr> else n"
  from Cons.prems have b: "b \<noteq> IAC" and p: "\<forall>b\<in>set p. b \<noteq> IAC" by simp_all
  have body: "negotiate_body (n, w\<lparr>inp := (b # p) @ rest\<rparr>) = Inr (?n, w\<lparr>inp := p @ rest\<rparr>)"
    using negotiate_body_data [OF Cons.prems(1,2) _ b, of "w\<lparr>inp := (b # p) @ rest\<rparr>" "p @ rest"]
    by simp
  have ok': "buffers_ok ?n"
    using Cons.prems(1) buffers_ok_store [OF Cons.prems(1)] by simp
  have m': "sb_mode ?n \<noteq> 0" "done_count ?n < 2"
    using Cons.prems(2,3) by simp_all
  have "negotiate_passes (length (b # p) + k) (n, w\<lparr>inp := (b # p) @ rest\<rparr>) =
        negotiate_passes (length p + k) (?n, w\<lparr>inp := p @ rest\<rparr>)"
    using Cons.prems(3,4) body by simp
  also have "\<dots> = negotiate_passes k (store_payload p ?n, w\<lparr>inp := rest\<rparr>)"
    by (rule Cons.IH [OF ok' m' Cons.prems(4) p])
  also have "store_payload p ?n = store_payload (b # p) n"
    by (rule store_payload_Cons [OF Cons.prems(1), symmetric])
  finally show ?case .
qed

text \<open>
  A terminal-type sub-negotiation takes one pass for SB, one for each byte of the payload
  and one for SE.
\<close>

lemma negotiate_passes_ttype:
  assumes "buffers_ok n" "done_count n < 2" "\<not> stdin_eof w" "m \<noteq> IAC" "\<forall>b\<in>set ty. b \<noteq> IAC"
    and "inp w = IAC # SB # TTYPE # m # ty @ IAC # SE # rest"
  shows "\<exists>n'. negotiate_passes (length ty + 4) (n, w) = Inr (n', w\<lparr>inp := rest, alarm_pending := False\<rparr>) \<and>
           done_count n' = done_count n + 1"
proof -
  let ?p = "TTYPE # m # ty"
  let ?n1 = "n\<lparr>sb_mode := 1, sb_len := 0, sb := replicate 1024 0\<rparr>"
  let ?n2 = "n\<lparr>sb_mode := 1, sb_len := int (length (take 1023 ?p)),
       sb := take 1023 ?p @ replicate (1024 - length (take 1023 ?p)) 0\<rparr>"
  have p: "\<forall>b\<in>set ?p. b \<noteq> IAC"
    using assms(4,5) by (simp add: telnet_defs)
  have ok2: "buffers_ok ?n2"
    by (rule buffers_ok_stored [OF assms(1)])
  have hd: "sb ?n2 ! 0 = TTYPE"
    by (simp add: take_Cons')
  from subneg_end_ttype [OF ok2 hd, of "w\<lparr>inp := rest\<rparr>"] obtain t where
    e: "subneg_end (?n2, w\<lparr>inp := rest\<rparr>) =
          Inr (?n2\<lparr>sb_mode := 0, term_buf := t, done_count := done_count ?n2 + 1\<rparr>,
               w\<lparr>inp := rest, alarm_pending := False\<rparr>)"
    by auto
  let ?n3 = "?n2\<lparr>sb_mode := 0, term_buf := t, done_count := done_count ?n2 + 1\<rparr>"
  have k: "length ty + 4 = Suc (length ?p + Suc 0)"
    by simp
  have "negotiate_body (n, w) = Inr (?n1, w\<lparr>inp := ?p @ IAC # SE # rest\<rparr>)"
    by (simp add: negotiate_body_IAC [of w SB "?p @ IAC # SE # rest"] assms(6) negotiate_command_SB)
  from negotiate_passes_step [OF assms(3,2) this]
  have "negotiate_passes (length ty + 4) (n, w) =
        negotiate_passes (length ?p + Suc 0) (?n1, w\<lparr>inp := ?p @ IAC # SE # rest\<rparr>)"
    by (simp only: k)
  also have "\<dots> = negotiate_passes (Suc 0) (store_payload ?p ?n1, w\<lparr>inp := IAC # SE # rest\<rparr>)"
    using assms(2,3) p by (intro negotiate_passes_payload buffers_ok_fresh [OF assms(1)]) simp_all
  also have "store_payload ?p ?n1 = ?n2"
    by (rule store_payload_fresh)
  also have "negotiate_passes (Suc 0) (?n2, w\<lparr>inp := IAC # SE # rest\<rparr>) =
      Inr (?n3, w\<lparr>inp := rest, alarm_pending := False\<rparr>)"
    using assms(2,3) e
    by (simp add: negotiate_body_IAC [of _ SE rest] negotiate_command_SE)
  finally show ?thesis
    by (intro exI [of _ ?n3]) simp
qed

lemma subneg_end_done:
  assumes "subneg_end (n, v) = Inr (n', v')"
  shows "(alarm_pending v' = (alarm_pending v \<and> sb n ! 0 \<noteq> TTYPE \<and> sb n ! 0 \<noteq> NAWS)) \<and>
         done_count n' = done_count n + (if sb n ! 0 = TTYPE \<or> sb n ! 0 = NAWS then 1 else 0)"
  using assms by (auto simp: subneg_end_def Let_def split: if_splits option.splits)

lemma negotiate_command_done:
  assumes "negotiate_command c (n, v) = Inr (n', v')" "c \<noteq> SE"
  shows "alarm_pending v' = alarm_pending v \<and> (done_count n' = done_count n \<or> done_count n' = 2)"
proof -
  obtain opt v1 where g: "getc v = (opt, v1)" by (cases "getc v")
  then have "alarm_pending v1 = alarm_pending v"
    using getc_frame(1) [of v] by simp
  with assms g show ?thesis
    by (auto simp: negotiate_command_def Let_def split: if_splits)
qed

lemma negotiate_body_IAC_eof:
  assumes "inp w = [IAC]"
  shows "negotiate_body (n, w) = negotiate_command IAC (n, w\<lparr>inp := [], in_eof := True\<rparr>)"
  using assms by (simp add: negotiate_body_def getc_def telnet_defs)

lemma negotiate_body_other:
  assumes "inp w = b # rest" "b \<noteq> IAC" "negotiate_body (n, w) = Inr (n', w')"
  shows "alarm_pending w' = alarm_pending w \<and> done_count n' = done_count n"
  using assms by (auto simp: negotiate_body_def getc_def split: if_splits)

lemma negotiate_body_disarm:
  assumes "negotiate_body (n, v) = Inr (n', v')" "alarm_pending v" "\<not> alarm_pending v'"
  shows "(\<exists>rest. inp v = IAC # SE # rest) \<and> (sb n ! 0 = TTYPE \<or> sb n ! 0 = NAWS) \<and>
         done_count n' = done_count n + 1"
proof (cases "inp v")
  case Nil
  with assms negotiate_body_eof [OF Nil, of n] show ?thesis by auto
next
  case (Cons b bs)
  show ?thesis
  proof (cases "b = IAC")
    case False
    with negotiate_body_other [OF Cons False assms(1)] assms(2,3) show ?thesis by simp
  next
    case True
    show ?thesis
    proof (cases bs)
      case Nil
      with Cons True have "inp v = [IAC]" by simp
      from negotiate_body_IAC_eof [OF this, of n] assms(1)
      have "negotiate_command IAC (n, v\<lparr>inp := [], in_eof := True\<rparr>) = Inr (n', v')" by simp
      from negotiate_command_done [OF this] assms(2,3) show ?thesis
        by (simp add: telnet_defs)
    next
      case (Cons c rest)
      with \<open>inp v = b # bs\<close> True have i: "inp v = IAC # c # rest" by simp
      from negotiate_body_IAC [OF i, of n] assms(1)
      have cmd: "negotiate_command c (n, v\<lparr>inp := rest\<rparr>) = Inr (n', v')" by simp
      show ?thesis
      proof (cases "c = SE")
        case False
        from negotiate_command_done [OF cmd False] assms(2,3) show ?thesis by simp
      next
        case True
        with cmd have "subneg_end (n, v\<lparr>inp := rest\<rparr>) = Inr (n', v')"
          by (simp add: negotiate_command_SE)
        from subneg_end_done [OF this] assms(2,3) i True show ?thesis
          by (auto split: if_splits)
      qed
    qed
  qed
qed

lemma negotiate_body_counter:
  assumes "negotiate_body (n, v) = Inr (n', v')"
  shows "done_count n' = done_count n \<or> done_count n' = done_count n + 1 \<or> done_count n' = 2"
proof (cases "inp v")
  case Nil
  with assms negotiate_body_eof [OF Nil, of n] show ?thesis by auto
next
  case (Cons b bs)
  show ?thesis
  proof (cases "b = IAC")
    case False
    with negotiate_body_other [OF Cons False assms] show ?thesis by simp
  next
    case True
    obtain c v1 where g: "getc (v\<lparr>inp := bs\<rparr>) = (c, v1)" by (cases "getc (v\<lparr>inp := bs\<rparr>)")
    with assms Cons True have cmd: "negotiate_command c (n, v1) = Inr (n', v')"
      by (simp add: negotiate_body_def getc_def)
    show ?thesis
    proof (cases "c = SE")
      case False
      from negotiate_command_done [OF cmd False] show ?thesis by auto
    next
      case True
      with cmd have "subneg_end (n, v1) = Inr (n', v')"
        by (simp add: negotiate_command_SE)
      from subneg_end_done [OF this] show ?thesis by (auto split: if_splits)
    qed
  qed
qed

lemma negotiate_passes_disarmed:
  "negotiate_passes k (n, v) = Inr (n', v') \<Longrightarrow> 0 \<le> done_count n \<Longrightarrow>
   alarm_pending v \<or> 1 \<le> done_count n \<Longrightarrow> \<not> alarm_pending v' \<Longrightarrow> 1 \<le> done_count n'"
proof (induction k arbitrary: n v)
  case 0
  then show ?case by auto
next
  case (Suc k)
  show ?case
  proof (cases "\<not> stdin_eof v \<and> done_count n < 2")
    case False
    with Suc.prems show ?thesis by auto
  next
    case True
    with Suc.prems(1) obtain n1 v1 where b: "negotiate_body (n, v) = Inr (n1, v1)"
      and r: "negotiate_passes k (n1, v1) = Inr (n', v')"
      by (auto split: sum.splits)
    note c = negotiate_body_counter [OF b]
    have 1: "0 \<le> done_count n1" using c Suc.prems(2) by auto
    have 2: "alarm_pending v1 \<or> 1 \<le> done_count n1"
    proof (cases "alarm_pending v1")
      case True
      then show ?thesis by simp
    next
      case False
      show ?thesis
      proof (cases "alarm_pending v")
        case True
        from negotiate_body_disarm [OF b True False] Suc.prems(2) show ?thesis by simp
      next
        case False
        with Suc.prems(3) c show ?thesis by auto
      qed
    qed
    from Suc.IH [OF r 1 2 Suc.prems(4)] show ?thesis .
  qed
qed

section \<open>The cursor of the line editor\<close>

lemma readline_guard:
  assumes "1 \<le> bufsize" "bufsize \<le> 2 ^ 31" "0 \<le> i" "i \<le> int bufsize - 1"
  shows "to_size_t i < size_minus_1 bufsize \<longleftrightarrow> i < int bufsize - 1"
proof -
  have "int bufsize \<le> 2 ^ 31" using assms(2) by (simp add: le_nat_iff nat_le_iff flip: of_nat_le_iff)
  then have "i < 2 ^ 64" "int bufsize - 1 < 2 ^ 64" using assms by simp_all
  then show ?thesis
    using assms by (simp add: to_size_t_def size_minus_1_def)
qed

lemma readline_body_cursor:
  assumes "cursor_ok bufsize (i, buffer, w)" "i < int bufsize - 1"
  shows "case readline_body password (i, buffer, w) of
           Stop h w' \<Rightarrow> h = Exit EXIT_SUCCESS
         | Break s \<Rightarrow> cursor_ok bufsize s
         | Continue s \<Rightarrow> cursor_ok bufsize s"
proof -
  obtain c w1 where g1: "getc w = (c, w1)" by (cases "getc w")
  obtain d w2 where g2: "(if c = 0 then getc w1 else (c, w1)) = (d, w2)"
    by (cases "if c = 0 then getc w1 else (c, w1)")
  from assms have "0 \<le> i" "nat i < length buffer" "length buffer = bufsize"
    by (auto simp: cursor_ok_def)
  with assms g1 g2 show ?thesis
    by (auto simp: readline_body_def cursor_ok_def Let_def)
qed

lemma readline_passes_cursor:
  assumes "1 \<le> bufsize" "bufsize \<le> 2 ^ 31"
  shows "cursor_ok bufsize s \<Longrightarrow>
         (case readline_passes k bufsize password s of
            Stop h w' \<Rightarrow> h = Exit EXIT_SUCCESS
          | Break s' \<Rightarrow> cursor_ok bufsize s'
          | Continue s' \<Rightarrow> cursor_ok bufsize s')"
proof (induction k arbitrary: s)
  case 0
  then show ?case by simp
next
  case (Suc k)
  obtain i b w where s: "s = (i, b, w)" by (cases s)
  with Suc.prems have ok: "cursor_ok bufsize (i, b, w)" by simp
  then have rng: "0 \<le> i" "i \<le> int bufsize - 1" by (simp_all add: cursor_ok_def)
  note guard = readline_guard [OF assms rng]
  show ?case
  proof (cases "i < int bufsize - 1")
    case False
    with guard ok show ?thesis by (simp add: s)
  next
    case True
    note body = readline_body_cursor [OF ok True, of password]
    show ?thesis
    proof (cases "readline_body password (i, b, w)")
      case (Stop h w')
      with body True guard show ?thesis by (simp add: s)
    next
      case (Break s')
      with body True guard show ?thesis by (simp add: s)
    next
      case (Continue s')
      with body have "cursor_ok bufsize s'" by simp
      from Suc.IH [OF this] Continue True guard show ?thesis by (simp add: s)
    qed
  qed
qed

lemma readline_loop_cursor:
  "1 \<le> bufsize \<Longrightarrow> bufsize \<le> 2 ^ 31 \<Longrightarrow> cursor_ok bufsize (i, b, w) \<Longrightarrow>
     (case readline_loop bufsize password (i, b, w) of
        Inl e \<Rightarrow> fst e = Exit EXIT_SUCCESS
      | Inr s' \<Rightarrow> cursor_ok bufsize s')"
proof (induction bufsize password "(i, b, w)" arbitrary: i b w rule: readline_loop.induct)
  case (1 bufsize password i b w)
  note [simp] = readline_loop.simps
  note ok = "1.prems"(3)
  from ok have rng: "0 \<le> i" "i \<le> int bufsize - 1" by (simp_all add: cursor_ok_def)
  note guard = readline_guard [OF "1.prems"(1,2) rng]
  show ?case
  proof (cases "i < int bufsize - 1")
    case False
    with guard ok show ?thesis by simp
  next
    case True
    with guard have g: "to_size_t i < size_minus_1 bufsize" by simp
    note body = readline_body_cursor [OF ok True, of password]
    show ?thesis
    proof (cases "readline_body password (i, b, w)")
      case (Stop h w')
      with body g show ?thesis by simp
    next
      case (Break s)
      with body g show ?thesis by simp
    next
      case (Continue s)
      obtain i1 b1 w1 where s: "s = (i1, b1, w1)" by (cases s)
      from Continue s have c: "readline_body password (i, b, w) = Continue (i1, b1, w1)" by simp
      with body have "cursor_ok bufsize (i1, b1, w1)" by simp
      from "1.hyps" [OF g c "1.prems"(1,2) this] g c show ?thesis by simp
    qed
  qed
qed

lemma readline_no_fault:
  assumes "1 \<le> bufsize" "bufsize \<le> 2 ^ 31" "length buffer = bufsize"
  shows "readline buffer bufsize password w \<noteq> Inl (Fault, w')"
proof -
  have "cursor_ok bufsize (0, buffer, put (esc ''[?25h'') w)"
    using assms by (simp add: cursor_ok_def)
  from readline_loop_cursor [OF assms(1,2) this, of password] assms(1) show ?thesis
    by (auto simp: readline_def cursor_ok_def EXIT_SUCCESS_def split: sum.splits)
qed

lemma readline_body_backspace_at_0:
  assumes "c = 8 \<or> c = 127" "\<not> in_eof w" "inp w = c # rest"
  shows "readline_body password (0, buffer, w) = Continue (0, buffer, w\<lparr>inp := rest\<rparr>)"
  using assms by (auto simp: readline_body_def getc_def)

section \<open>Plain characters and NUL in the line editor\<close>

lemma readline_body_plain:
  assumes "\<not> in_eof w" "inp w = c # rest" "plain c" "0 \<le> i" "nat i < length buffer"
  shows "readline_body password (i, buffer, w) =
           Continue (i + 1, buffer[nat i := c], put [echo password c] (w\<lparr>inp := rest\<rparr>))"
  using assms by (simp add: readline_body_def getc_def plain_def echo_def)

lemma readline_loop_plain:
  assumes "1 \<le> bufsize" "bufsize \<le> 2 ^ 31"
  shows "length buffer = bufsize \<Longrightarrow> 0 \<le> i \<Longrightarrow> i + int (length t) \<le> int bufsize - 1 \<Longrightarrow>
         \<forall>c\<in>set t. plain c \<Longrightarrow> \<not> in_eof w \<Longrightarrow>
         readline_loop bufsize password (i, buffer, w\<lparr>inp := t @ rest\<rparr>) =
         readline_loop bufsize password
           (i + int (length t), take (nat i) buffer @ t @ drop (nat i + length t) buffer,
            w\<lparr>inp := rest, outp := outp w @ map (echo password) t\<rparr>)"
proof (induction t arbitrary: i buffer w)
  case Nil
  then show ?case by simp
next
  case (Cons c t)
  let ?w = "w\<lparr>inp := (c # t) @ rest\<rparr>"
  from Cons.prems have lt: "i < int bufsize - 1" and idx: "nat i < length buffer" by auto
  from Cons.prems have rng: "0 \<le> i" "i \<le> int bufsize - 1" by auto
  have g: "to_size_t i < size_minus_1 bufsize"
    using readline_guard [OF assms rng] lt by simp
  have body: "readline_body password (i, buffer, ?w) =
      Continue (i + 1, buffer[nat i := c], put [echo password c] (?w\<lparr>inp := t @ rest\<rparr>))"
    using Cons.prems idx by (intro readline_body_plain) simp_all
  have w': "put [echo password c] (?w\<lparr>inp := t @ rest\<rparr>) =
            (w\<lparr>outp := outp w @ [echo password c]\<rparr>)\<lparr>inp := t @ rest\<rparr>"
    by (simp add: put_def)
  have "readline_loop bufsize password (i, buffer, ?w) =
        readline_loop bufsize password
          (i + 1, buffer[nat i := c], (w\<lparr>outp := outp w @ [echo password c]\<rparr>)\<lparr>inp := t @ rest\<rparr>)"
    using g body w' by (subst readline_loop.simps) simp
  also have "\<dots> = readline_loop bufsize password
      (i + 1 + int (length t),
       take (nat (i + 1)) (buffer[nat i := c]) @ t @ drop (nat (i + 1) + length t) (buffer[nat i := c]),
       (w\<lparr>outp := outp w @ [echo password c]\<rparr>)\<lparr>inp := rest,
          outp := outp (w\<lparr>outp := outp w @ [echo password c]\<rparr>) @ map (echo password) t\<rparr>)"
    using Cons.prems by (intro Cons.IH) simp_all
  also have "nat (i + 1) = Suc (nat i)"
    using Cons.prems by simp
  also have "take (Suc (nat i)) (buffer[nat i := c]) = take (nat i) buffer @ [c]"
    using idx by (simp add: take_Suc_conv_app_nth)
  finally show ?case
    by (simp add: add_ac)
qed

lemma readline_fills:
  assumes "1 \<le> bufsize" "bufsize \<le> 2 ^ 31" "length buffer = bufsize"
    and "length t = bufsize - 1" "\<forall>c\<in>set t. plain c" "\<not> in_eof w"
  shows "readline buffer bufsize password (w\<lparr>inp := t @ rest\<rparr>) =
           Inr (t @ [0],
                w\<lparr>inp := rest,
                  outp := outp w @ esc ''[?25h'' @ map (echo password) t @ esc ''[?25l''\<rparr>)"
proof -
  let ?w = "put (esc ''[?25h'') (w\<lparr>inp := t @ rest\<rparr>)"
  let ?v = "w\<lparr>outp := outp w @ esc ''[?25h''\<rparr>"
  have w: "?w = ?v\<lparr>inp := t @ rest\<rparr>" by (simp add: put_def)
  have len: "int (length t) = int bufsize - 1" using assms(1,4) by simp
  have "readline_loop bufsize password (0, buffer, ?v\<lparr>inp := t @ rest\<rparr>) =
        readline_loop bufsize password
          (0 + int (length t), take (nat 0) buffer @ t @ drop (nat 0 + length t) buffer,
           ?v\<lparr>inp := rest, outp := outp ?v @ map (echo password) t\<rparr>)"
    using assms len by (intro readline_loop_plain) simp_all
  also have "\<dots> = Inr (int bufsize - 1, t @ drop (length t) buffer,
           ?v\<lparr>inp := rest, outp := outp ?v @ map (echo password) t\<rparr>)"
    using readline_guard [OF assms(1,2), of "int bufsize - 1"] assms(1) len
    by (subst readline_loop.simps) simp
  finally have loop: "readline_loop bufsize password (0, buffer, ?w) =
      Inr (int bufsize - 1, t @ drop (length t) buffer,
           ?v\<lparr>inp := rest, outp := outp ?v @ map (echo password) t\<rparr>)"
    by (simp only: w)
  have d: "length (drop (length t) buffer) = 1"
    using assms(1,3,4) by simp
  then obtain x where x: "drop (length t) buffer = [x]"
    by (cases "drop (length t) buffer") auto
  have idx: "nat (int bufsize - 1) = length t" using assms(1,4) by simp
  have fin: "(t @ drop (length t) buffer)[nat (int bufsize - 1) := 0] = t @ [0]"
    unfolding idx x by simp
  have rng: "0 \<le> int bufsize - 1" "nat (int bufsize - 1) < length (t @ drop (length t) buffer)"
    unfolding idx x using assms(1) by simp_all
  show ?thesis
    unfolding readline_def loop using fin rng by (simp add: put_def)
qed

lemma readline_body_nul_skip:
  assumes "c \<noteq> 0" "\<not> in_eof w"
  shows "readline_body password (i, buffer, w\<lparr>inp := 0 # c # rest\<rparr>) =
         readline_body password (i, buffer, w\<lparr>inp := c # rest\<rparr>)"
  using assms by (simp add: readline_body_def getc_def)

lemma readline_body_nul_nul:
  assumes "\<not> in_eof w" "0 \<le> i" "nat i < length buffer"
  shows "readline_body password (i, buffer, w\<lparr>inp := 0 # 0 # rest\<rparr>) =
         Continue (i + 1, buffer[nat i := 0], put [echo password 0] (w\<lparr>inp := rest\<rparr>))"
  using assms by (simp add: readline_body_def getc_def echo_def)

section \<open>Lines and the end of the stream in the session\<close>







section \<open>Negotiation replies are sent on disagreement only\<close>

text \<open>
  C1. For every option code and both directions: \<open>send_command\<close> with the verb DO or
  DONT (WILL or WONT) writes the three bytes IAC, verb, option exactly when the agreed value
  of the option in \<open>telnet_do_set\<close> (\<open>telnet_will_set\<close>) differs from the verb, and
  then records the verb as agreed; when they match already, it writes nothing and leaves the
  whole state as it is. So a second \<open>send_command\<close> with the same verb and option
  changes nothing: no duplicate reply.
\<close>

theorem send_command_on_disagreement_only:
  "(cmd = DO \<or> cmd = DONT \<longrightarrow>
      outp (send_command cmd opt w) =
        outp w @ (if telnet_do_set w opt \<noteq> cmd then [IAC, cmd, opt] else []) \<and>
      (telnet_do_set w opt = cmd \<longrightarrow> send_command cmd opt w = w) \<and>
      telnet_do_set (send_command cmd opt w) = (telnet_do_set w)(opt := cmd) \<and>
      telnet_will_set (send_command cmd opt w) = telnet_will_set w \<and>
      send_command cmd opt (send_command cmd opt w) = send_command cmd opt w) \<and>
   (cmd = WILL \<or> cmd = WONT \<longrightarrow>
      outp (send_command cmd opt w) =
        outp w @ (if telnet_will_set w opt \<noteq> cmd then [IAC, cmd, opt] else []) \<and>
      (telnet_will_set w opt = cmd \<longrightarrow> send_command cmd opt w = w) \<and>
      telnet_will_set (send_command cmd opt w) = (telnet_will_set w)(opt := cmd) \<and>
      telnet_do_set (send_command cmd opt w) = telnet_do_set w \<and>
      send_command cmd opt (send_command cmd opt w) = send_command cmd opt w)"
proof (intro conjI impI)
  assume v: "cmd = DO \<or> cmd = DONT"
  show "outp (send_command cmd opt w) =
          outp w @ (if telnet_do_set w opt \<noteq> cmd then [IAC, cmd, opt] else [])"
    using v by (auto simp: send_command_def put_def)
  show "send_command cmd opt w = w" if "telnet_do_set w opt = cmd"
    using v that by (auto simp: send_command_def)
  show "telnet_do_set (send_command cmd opt w) = (telnet_do_set w)(opt := cmd)"
    using v by (auto simp: send_command_def put_def)
  show "telnet_will_set (send_command cmd opt w) = telnet_will_set w"
    using v by (auto simp: send_command_def put_def)
  show "send_command cmd opt (send_command cmd opt w) = send_command cmd opt w"
    using v by (auto simp: send_command_def put_def)
next
  assume v: "cmd = WILL \<or> cmd = WONT"
  then have nd: "cmd \<noteq> DO" "cmd \<noteq> DONT"
    by (auto simp: telnet_defs)
  show "outp (send_command cmd opt w) =
          outp w @ (if telnet_will_set w opt \<noteq> cmd then [IAC, cmd, opt] else [])"
    using v nd by (auto simp: send_command_def put_def)
  show "send_command cmd opt w = w" if "telnet_will_set w opt = cmd"
    using v nd that by (auto simp: send_command_def)
  show "telnet_will_set (send_command cmd opt w) = (telnet_will_set w)(opt := cmd)"
    using v nd by (auto simp: send_command_def put_def)
  show "telnet_do_set (send_command cmd opt w) = telnet_do_set w"
    using v nd by (auto simp: send_command_def put_def)
  show "send_command cmd opt (send_command cmd opt w) = send_command cmd opt w"
    using v nd by (auto simp: send_command_def put_def)
qed

text \<open>
  At the start of a connection the first DO for the terminal type is sent and its
  repetition is not; a DO that the table already records changes nothing; and the same for
  a WONT.
\<close>

theorem send_command_on_disagreement_only_witness:
  "outp (send_command DO TTYPE (initial_world [])) = [IAC, DO, TTYPE] \<and>
   send_command DO TTYPE (send_command DO TTYPE (initial_world [])) =
     send_command DO TTYPE (initial_world []) \<and>
   send_command DO TTYPE ((initial_world [])\<lparr>telnet_do_set := (\<lambda>_. 0)(TTYPE := DO)\<rparr>) =
     (initial_world [])\<lparr>telnet_do_set := (\<lambda>_. 0)(TTYPE := DO)\<rparr> \<and>
   outp (send_command WONT NEW_ENVIRON (initial_world [])) = [IAC, WONT, NEW_ENVIRON] \<and>
   send_command WONT NEW_ENVIRON (send_command WONT NEW_ENVIRON (initial_world [])) =
     send_command WONT NEW_ENVIRON (initial_world []) \<and>
   send_command WONT NEW_ENVIRON
       ((initial_world [])\<lparr>telnet_will_set := (\<lambda>_. 0)(NEW_ENVIRON := WONT)\<rparr>) =
     (initial_world [])\<lparr>telnet_will_set := (\<lambda>_. 0)(NEW_ENVIRON := WONT)\<rparr>"
  using send_command_on_disagreement_only [of DO TTYPE "initial_world []"]
    send_command_on_disagreement_only [of DO TTYPE
      "(initial_world [])\<lparr>telnet_do_set := (\<lambda>_. 0)(TTYPE := DO)\<rparr>"]
    send_command_on_disagreement_only [of WONT NEW_ENVIRON "initial_world []"]
    send_command_on_disagreement_only [of WONT NEW_ENVIRON
      "(initial_world [])\<lparr>telnet_will_set := (\<lambda>_. 0)(NEW_ENVIRON := WONT)\<rparr>"]
  by (simp add: initial_world_def telnet_defs)

section \<open>The sub-negotiation buffer is never overrun\<close>

text \<open>
  C2. For every input byte stream (every state \<open>w\<close> the negotiation starts in): at the
  head of every pass of the loop the buffers are in order and no pass ends in an access
  outside an array, and neither does \<open>negotiate_telnet\<close> as a whole. A payload byte that
  arrives in sub-negotiation mode is written at the index \<open>sb_len\<close>, which is below 1023
  and so strictly below the capacity 1024, and \<open>sb_len\<close> grows by one; when \<open>sb_len\<close>
  has reached 1023 the byte is consumed and nothing else changes. Two payloads that agree on
  their first 1024 bytes, arriving after SB, give the same run from there on, hence the same
  terminal type and width at SE.
\<close>

theorem sub_negotiation_buffer_bounded:
  "(\<forall>k. \<exists>n' w'. negotiate_passes k (negotiate_start w) = Inr (n', w') \<and> buffers_ok n') \<and>
   (\<exists>n' w'. negotiate_telnet w = Inr (n', w') \<and> buffers_ok n') \<and>
   (\<forall>n v b rest. buffers_ok n \<and> sb_mode n \<noteq> 0 \<and> inp v = b # rest \<and> b \<noteq> IAC \<longrightarrow>
      nat (sb_len n) < length (sb n) \<and>
      negotiate_body (n, v) =
        Inr (if sb_len n < 1023
             then n\<lparr>sb := (sb n)[nat (sb_len n) := b], sb_len := sb_len n + 1\<rparr> else n,
             v\<lparr>inp := rest\<rparr>)) \<and>
   (\<forall>n v p q rest. buffers_ok n \<and> sb_mode n \<noteq> 0 \<and> sb_len n = 0 \<and> done_count n < 2 \<and>
      \<not> stdin_eof v \<and> (\<forall>b\<in>set p. b \<noteq> IAC) \<and> (\<forall>b\<in>set q. b \<noteq> IAC) \<and>
      take 1024 p = take 1024 q \<longrightarrow>
      negotiate_loop (n, v\<lparr>inp := p @ rest\<rparr>) = negotiate_loop (n, v\<lparr>inp := q @ rest\<rparr>))"
proof (intro conjI allI impI)
  fix k
  show "\<exists>n' w'. negotiate_passes k (negotiate_start w) = Inr (n', w') \<and> buffers_ok n'"
    by (rule negotiate_passes_ok [OF buffers_ok_start])
next
  obtain n0 w0 where s: "negotiate_start w = (n0, w0)"
    by (cases "negotiate_start w")
  with buffers_ok_start [of w] have "buffers_ok n0" by simp
  from negotiate_loop_ok [OF this, of w0] s
  show "\<exists>n' w'. negotiate_telnet w = Inr (n', w') \<and> buffers_ok n'"
    by (simp add: negotiate_telnet_def)
next
  fix n :: nstate and v :: world and b :: byte and rest :: "byte list"
  assume h: "buffers_ok n \<and> sb_mode n \<noteq> 0 \<and> inp v = b # rest \<and> b \<noteq> IAC"
  then show "nat (sb_len n) < length (sb n)"
    by (auto simp: buffers_ok_def)
  from h show "negotiate_body (n, v) =
        Inr (if sb_len n < 1023
             then n\<lparr>sb := (sb n)[nat (sb_len n) := b], sb_len := sb_len n + 1\<rparr> else n,
             v\<lparr>inp := rest\<rparr>)"
    by (intro negotiate_body_data) simp_all
next
  fix n :: nstate and v :: world and p q rest :: "byte list"
  assume h: "buffers_ok n \<and> sb_mode n \<noteq> 0 \<and> sb_len n = 0 \<and> done_count n < 2 \<and>
      \<not> stdin_eof v \<and> (\<forall>b\<in>set p. b \<noteq> IAC) \<and> (\<forall>b\<in>set q. b \<noteq> IAC) \<and>
      take 1024 p = take 1024 q"
  then have "take 1023 (take 1024 p) = take 1023 (take 1024 q)"
    by simp
  then have eq: "take 1023 p = take 1023 q"
    by simp
  have "negotiate_loop (n, v\<lparr>inp := p @ rest\<rparr>) = negotiate_loop (n, v\<lparr>inp := take 1023 p @ rest\<rparr>)"
    using h by (intro negotiate_loop_truncates) simp_all
  also have "\<dots> = negotiate_loop (n, v\<lparr>inp := q @ rest\<rparr>)"
    unfolding eq using h by (intro negotiate_loop_truncates [symmetric]) simp_all
  finally show "negotiate_loop (n, v\<lparr>inp := p @ rest\<rparr>) = negotiate_loop (n, v\<lparr>inp := q @ rest\<rparr>)" .
qed

text \<open>
  Just after SB, a payload of 2000 bytes and its first 1024 bytes give the same run, and a
  byte that arrives when 1023 are stored is dropped.
\<close>

theorem sub_negotiation_buffer_bounded_witness:
  "negotiate_loop
     (\<lparr>term_buf = replicate 1024 0, done_count = 0, sb_mode = 1, do_echo = 0,
       terminal_width = 80, sb_len = 0, sb = replicate 1024 0\<rparr>,
      (initial_world [])\<lparr>inp := replicate 2000 65 @ [IAC, SE]\<rparr>) =
   negotiate_loop
     (\<lparr>term_buf = replicate 1024 0, done_count = 0, sb_mode = 1, do_echo = 0,
       terminal_width = 80, sb_len = 0, sb = replicate 1024 0\<rparr>,
      (initial_world [])\<lparr>inp := replicate 1024 65 @ [IAC, SE]\<rparr>) \<and>
   negotiate_body
     (\<lparr>term_buf = replicate 1024 0, done_count = 0, sb_mode = 1, do_echo = 0,
       terminal_width = 80, sb_len = 1023, sb = replicate 1023 65 @ [0]\<rparr>,
      initial_world [66, 67]) =
   Inr (\<lparr>term_buf = replicate 1024 0, done_count = 0, sb_mode = 1, do_echo = 0,
         terminal_width = 80, sb_len = 1023, sb = replicate 1023 65 @ [0]\<rparr>,
        initial_world [67])"
proof -
  let ?n = "\<lparr>term_buf = replicate 1024 0, done_count = 0, sb_mode = 1, do_echo = 0,
       terminal_width = 80, sb_len = 0, sb = replicate 1024 (0 :: byte)\<rparr>"
  let ?m = "\<lparr>term_buf = replicate 1024 0, done_count = 0, sb_mode = 1, do_echo = 0,
       terminal_width = 80, sb_len = 1023, sb = replicate 1023 65 @ [0 :: byte]\<rparr>"
  note t = sub_negotiation_buffer_bounded [of "initial_world []"]
  have "negotiate_loop (?n, (initial_world [])\<lparr>inp := replicate 2000 65 @ [IAC, SE]\<rparr>) =
        negotiate_loop (?n, (initial_world [])\<lparr>inp := replicate 1024 65 @ [IAC, SE]\<rparr>)"
    by (rule t [THEN conjunct2, THEN conjunct2, THEN conjunct2, rule_format])
       (simp add: buffers_ok_def initial_world_def telnet_defs)
  moreover have "negotiate_body (?m, initial_world [66, 67]) = Inr (?m, initial_world [67])"
    using t [THEN conjunct2, THEN conjunct2, THEN conjunct1, rule_format,
        of ?m "initial_world [66, 67]" 66 "[67]"]
    by (simp add: buffers_ok_def initial_world_def telnet_defs)
  ultimately show ?thesis by simp
qed

section \<open>The cursor stays inside the line buffer\<close>

text \<open>
  C3. \<open>readline\<close> on a buffer of capacity \<open>N\<close> (from 1 to \<open>2^31\<close>, the range in
  which the \<open>int\<close> cursor cannot overflow), for every input: after every number of passes
  of the loop, that is after each fully processed byte, the cursor is in \<open>[0, N - 1]\<close> and
  the buffer has its \<open>N\<close> characters; no pass and no run of \<open>readline\<close> ends in an
  access outside the buffer. A backspace or delete that arrives with the cursor at 0 changes
  neither the cursor nor the buffer, and nothing is written to the peer.
\<close>

theorem readline_cursor_in_range:
  assumes "1 \<le> bufsize" "bufsize \<le> 2 ^ 31" "length buffer = bufsize"
  shows
  "(\<forall>k i b w'. readline_passes k bufsize password (0, buffer, w) = Continue (i, b, w') \<or>
       readline_passes k bufsize password (0, buffer, w) = Break (i, b, w') \<longrightarrow>
       0 \<le> i \<and> i \<le> int bufsize - 1 \<and> length b = bufsize) \<and>
   (\<forall>k w'. readline_passes k bufsize password (0, buffer, w) \<noteq> Stop Fault w') \<and>
   (\<forall>w'. readline buffer bufsize password w \<noteq> Inl (Fault, w')) \<and>
   (\<forall>c rest. (c = 8 \<or> c = 127) \<and> \<not> in_eof w \<and> inp w = c # rest \<longrightarrow>
      readline_body password (0, buffer, w) = Continue (0, buffer, w\<lparr>inp := rest\<rparr>))"
proof -
  have start: "cursor_ok bufsize (0, buffer, w)"
    using assms by (simp add: cursor_ok_def)
  note inv = readline_passes_cursor [OF assms(1,2) start, of _ password]
  have "0 \<le> i \<and> i \<le> int bufsize - 1 \<and> length b = bufsize"
    if "readline_passes k bufsize password (0, buffer, w) = Continue (i, b, w') \<or>
        readline_passes k bufsize password (0, buffer, w) = Break (i, b, w')" for k i b w'
    using inv [of k] that by (auto simp: cursor_ok_def)
  moreover have "readline_passes k bufsize password (0, buffer, w) \<noteq> Stop Fault w'" for k w'
    using inv [of k] by (auto simp: EXIT_SUCCESS_def)
  moreover have "readline buffer bufsize password w \<noteq> Inl (Fault, w')" for w'
    by (rule readline_no_fault [OF assms])
  moreover have "readline_body password (0, buffer, w) = Continue (0, buffer, w\<lparr>inp := rest\<rparr>)"
    if "(c = 8 \<or> c = 127) \<and> \<not> in_eof w \<and> inp w = c # rest" for c rest
    using that by (intro readline_body_backspace_at_0 [of c]) simp_all
  ultimately show ?thesis by blast
qed

text \<open>
  A field of 1024 characters: after one pass over a letter the cursor is 1 and the buffer
  still has 1024 cells; a backspace as the first byte leaves the cursor at 0.
\<close>

theorem readline_cursor_in_range_witness:
  "readline_passes (Suc 0) 1024 0 (0, replicate 1024 0, initial_world [97, 8]) =
     Continue (1, (replicate 1024 0)[0 := 97], put [97] ((initial_world [97, 8])\<lparr>inp := [8]\<rparr>)) \<and>
   length ((replicate 1024 0)[0 := 97 :: byte]) = 1024 \<and>
   readline_body 0 (0, replicate 1024 0, initial_world [8, 97]) =
     Continue (0, replicate 1024 0, (initial_world [8, 97])\<lparr>inp := [97]\<rparr>) \<and>
   (\<forall>w'. readline (replicate 1024 0) 1024 0 (initial_world [8, 97]) \<noteq> Inl (Fault, w'))"
proof -
  have p: "readline_passes (Suc 0) 1024 0 (0, replicate 1024 0, initial_world [97, 8]) =
     Continue (1, (replicate 1024 0)[0 := 97], put [97] ((initial_world [97, 8])\<lparr>inp := [8]\<rparr>))"
    by (simp add: readline_body_def getc_def initial_world_def to_size_t_def size_minus_1_def)
  from readline_cursor_in_range [of 1024 "replicate 1024 0" 0 "initial_world [97, 8]",
      THEN conjunct1, rule_format, of "Suc 0" 1 "(replicate 1024 0)[0 := 97]"
        "put [97] ((initial_world [97, 8])\<lparr>inp := [8]\<rparr>)"] p
  have "length ((replicate 1024 0)[0 := 97 :: byte]) = 1024"
    by simp
  with p show ?thesis
    using readline_cursor_in_range [of 1024 "replicate 1024 0" 0 "initial_world [8, 97]"]
    by (simp add: initial_world_def)
qed

section \<open>IAC IAC ends the negotiation, not the connection\<close>




section \<open>One NUL is skipped, a second one is stored\<close>

text \<open>
  C5, as amended. In \<open>readline\<close>, a NUL read as the first byte of an input event is
  discarded and exactly one more byte is read in its place and processed as the current
  input event: when that byte \<open>c\<close> is not NUL, the pass on NUL, \<open>c\<close> is the pass on
  \<open>c\<close> alone, and so is the rest of the loop (when the loop admits a pass). The byte read
  in place of a NUL is not examined for NUL again: a NUL that follows a discarded NUL is
  processed as an ordinary character, stored at the cursor and echoed (as \<open>*\<close> in a
  masked field).
\<close>

theorem readline_skips_one_nul:
  "(c \<noteq> 0 \<and> \<not> in_eof w \<longrightarrow>
      readline_body password (i, buffer, w\<lparr>inp := 0 # c # rest\<rparr>) =
      readline_body password (i, buffer, w\<lparr>inp := c # rest\<rparr>) \<and>
      (to_size_t i < size_minus_1 bufsize \<longrightarrow>
       readline_loop bufsize password (i, buffer, w\<lparr>inp := 0 # c # rest\<rparr>) =
       readline_loop bufsize password (i, buffer, w\<lparr>inp := c # rest\<rparr>))) \<and>
   (\<not> in_eof w \<and> 0 \<le> i \<and> nat i < length buffer \<longrightarrow>
      readline_body password (i, buffer, w\<lparr>inp := 0 # 0 # rest\<rparr>) =
      Continue (i + 1, buffer[nat i := 0], put [echo password 0] (w\<lparr>inp := rest\<rparr>)))"
proof (intro conjI impI)
  assume h: "c \<noteq> 0 \<and> \<not> in_eof w"
  then show body: "readline_body password (i, buffer, w\<lparr>inp := 0 # c # rest\<rparr>) =
      readline_body password (i, buffer, w\<lparr>inp := c # rest\<rparr>)"
    by (intro readline_body_nul_skip) simp_all
  show "readline_loop bufsize password (i, buffer, w\<lparr>inp := 0 # c # rest\<rparr>) =
      readline_loop bufsize password (i, buffer, w\<lparr>inp := c # rest\<rparr>)"
    if "to_size_t i < size_minus_1 bufsize"
    using that by (subst (1 2) readline_loop.simps) (simp add: body)
next
  assume "\<not> in_eof w \<and> 0 \<le> i \<and> nat i < length buffer"
  then show "readline_body password (i, buffer, w\<lparr>inp := 0 # 0 # rest\<rparr>) =
      Continue (i + 1, buffer[nat i := 0], put [echo password 0] (w\<lparr>inp := rest\<rparr>))"
    by (intro readline_body_nul_nul) simp_all
qed

text \<open>NUL before the letter a, and two NULs, at the start of a field of eight characters.\<close>

theorem readline_skips_one_nul_witness:
  "readline_loop 8 0 (0, [1, 2, 3, 4, 5, 6, 7, 8], (initial_world [])\<lparr>inp := [0, 97, 13]\<rparr>) =
   readline_loop 8 0 (0, [1, 2, 3, 4, 5, 6, 7, 8], (initial_world [])\<lparr>inp := [97, 13]\<rparr>) \<and>
   readline_body 0 (0, [1, 2, 3, 4, 5, 6, 7, 8], (initial_world [])\<lparr>inp := [0, 0, 13]\<rparr>) =
   Continue (1, [0, 2, 3, 4, 5, 6, 7, 8], put [0] ((initial_world [])\<lparr>inp := [13]\<rparr>))"
  using readline_skips_one_nul [of 97 "initial_world []" 0 0 "[1, 2, 3, 4, 5, 6, 7, 8]" "[13]" 8]
  by (simp add: initial_world_def echo_def to_size_t_def size_minus_1_def)

text \<open>
  The claim as stated fails on a NUL that follows a NUL: of the bytes a, NUL, NUL, b, CR the
  second NUL is stored and echoed and the field returned holds the string a, while the bytes
  a, b, CR give the string ab.
\<close>

theorem readline_second_nul_counterexample:
  "readline [1, 2, 3, 4, 5, 6, 7, 8] 8 0 (initial_world [97, 0, 0, 98, 13]) =
     Inr ([97, 0, 98, 0, 5, 6, 7, 8],
          (initial_world [])\<lparr>outp := esc ''[?25h'' @ [97, 0, 98, 13, 0, 10] @ esc ''[?25l''\<rparr>) \<and>
   c_string [97, 0, 98, 0, 5, 6, 7, 8] = [97] \<and>
   readline [1, 2, 3, 4, 5, 6, 7, 8] 8 0 (initial_world [97, 98, 13]) =
     Inr ([97, 98, 0, 4, 5, 6, 7, 8],
          (initial_world [])\<lparr>outp := esc ''[?25h'' @ [97, 98, 13, 0, 10] @ esc ''[?25l''\<rparr>) \<and>
   c_string [97, 98, 0, 4, 5, 6, 7, 8] = [97, 98]"
  by (simp add: readline_def readline_loop.simps readline_body_def getc_def put_def newline_def
        initial_world_def c_string_def to_size_t_def size_minus_1_def)

section \<open>A full line buffer ends the read\<close>

text \<open>
  C6, as amended. In \<open>readline\<close> on a buffer of capacity \<open>N\<close>, once the cursor has
  reached \<open>N - 1\<close> the loop ends without another read: after \<open>N - 1\<close> plain characters
  the field is terminated and returned at once, further bytes are neither stored nor
  consumed, and whatever follows (\<open>rest\<close>, with or without a line terminator) stays in
  the stream for the next read.
\<close>

theorem readline_returns_when_full:
  assumes "1 \<le> bufsize" "bufsize \<le> 2 ^ 31" "length buffer = bufsize"
    and "length t = bufsize - 1" "\<forall>c\<in>set t. plain c" "\<not> in_eof w"
  shows "readline_loop bufsize password (int bufsize - 1, buffer, w\<lparr>inp := rest\<rparr>) =
           Inr (int bufsize - 1, buffer, w\<lparr>inp := rest\<rparr>) \<and>
         readline buffer bufsize password (w\<lparr>inp := t @ rest\<rparr>) =
           Inr (t @ [0],
                w\<lparr>inp := rest,
                  outp := outp w @ esc ''[?25h'' @ map (echo password) t @ esc ''[?25l''\<rparr>)"
proof
  show "readline_loop bufsize password (int bufsize - 1, buffer, w\<lparr>inp := rest\<rparr>) =
           Inr (int bufsize - 1, buffer, w\<lparr>inp := rest\<rparr>)"
    using readline_guard [OF assms(1,2), of "int bufsize - 1"] assms(1)
    by (subst readline_loop.simps) simp
  show "readline buffer bufsize password (w\<lparr>inp := t @ rest\<rparr>) =
           Inr (t @ [0],
                w\<lparr>inp := rest,
                  outp := outp w @ esc ''[?25h'' @ map (echo password) t @ esc ''[?25l''\<rparr>)"
    by (rule readline_fills [OF assms])
qed

text \<open>A masked field of capacity 4 on the bytes abcde, CR.\<close>

theorem readline_returns_when_full_witness:
  "readline [1, 2, 3, 4] 4 1 ((initial_world [])\<lparr>inp := [97, 98, 99] @ [100, 101, 13]\<rparr>) =
     Inr ([97, 98, 99] @ [0],
          (initial_world [])\<lparr>inp := [100, 101, 13],
             outp := outp (initial_world []) @ esc ''[?25h'' @ map (echo 1) [97, 98, 99] @ esc ''[?25l''\<rparr>)"
  using readline_returns_when_full [of 4 "[1, 2, 3, 4]" "[97, 98, 99]" "initial_world []" 1
      "[100, 101, 13]"]
  by (simp add: plain_def initial_world_def)

text \<open>
  The claim as stated fails: on 1023 letters a followed by b, c, CR, a field of capacity
  1024 is returned with b, c, CR still unread.
\<close>

theorem readline_full_counterexample:
  "readline (replicate 1024 0) 1024 0 (initial_world (replicate 1023 97 @ [98, 99, 13])) =
     Inr (replicate 1023 97 @ [0],
          (initial_world [98, 99, 13])\<lparr>outp := esc ''[?25h'' @ replicate 1023 97 @ esc ''[?25l''\<rparr>)"
proof -
  have "readline (replicate 1024 0) 1024 0 ((initial_world [])\<lparr>inp := replicate 1023 97 @ [98, 99, 13]\<rparr>) =
     Inr (replicate 1023 97 @ [0],
          (initial_world [])\<lparr>inp := [98, 99, 13],
            outp := outp (initial_world []) @ esc ''[?25h'' @ map (echo 0) (replicate 1023 97) @
                    esc ''[?25l''\<rparr>)"
    by (rule readline_fills) (simp_all add: plain_def initial_world_def)
  then show ?thesis
    by (simp add: initial_world_def echo_def)
qed

section \<open>The end of the input stream\<close>



section \<open>The handshake timer\<close>

text \<open>
  C8, as amended. The timer is armed when negotiation begins, with no capability resolved.
  Its handler, which runs when the timer fires, cancels the timer, writes the rejection
  banner and ends the process with \<open>EXIT_FAILURE\<close>. No pass of the loop arms the timer
  again, and a pass disarms it only by resolving a capability: SE on a buffer whose leading
  byte is the terminal-type or the window-size option, which also adds one to the counter.
  Every such pass disarms it, the first one included, so the timer is disarmed while only
  one capability is resolved; it is never disarmed while none is (a disarmed timer means a
  counter of at least 1). When the timer fires is outside this model.
\<close>

theorem timer_disarmed_by_resolution:
  "(alarm_pending (snd (negotiate_start w)) \<and> done_count (fst (negotiate_start w)) = 0) \<and>
   SIGALRM_handler w =
     (Exit EXIT_FAILURE,
      w\<lparr>alarm_pending := False,
        outp := outp w @ esc ''[?25h'' @ esc ''[0m'' @ esc ''[H'' @ esc ''[2J'' @
          esc ''[1;31m*** You must connect using a real telnet client. ***'' @ esc ''[0m'' @
          [13, 0, 10]\<rparr>) \<and>
   (\<forall>n v n' v'. negotiate_body (n, v) = Inr (n', v') \<and> alarm_pending v' \<longrightarrow> alarm_pending v) \<and>
   (\<forall>n v n' v'. negotiate_body (n, v) = Inr (n', v') \<and> alarm_pending v \<and> \<not> alarm_pending v' \<longrightarrow>
      (\<exists>rest. inp v = IAC # SE # rest) \<and> (sb n ! 0 = TTYPE \<or> sb n ! 0 = NAWS) \<and>
      done_count n' = done_count n + 1) \<and>
   (\<forall>n v rest. buffers_ok n \<and> inp v = IAC # SE # rest \<and> (sb n ! 0 = TTYPE \<or> sb n ! 0 = NAWS) \<longrightarrow>
      (\<exists>n' v'. negotiate_body (n, v) = Inr (n', v') \<and> \<not> alarm_pending v' \<and>
         done_count n' = done_count n + 1)) \<and>
   (\<forall>k n' v'. negotiate_passes k (negotiate_start w) = Inr (n', v') \<and> \<not> alarm_pending v' \<longrightarrow>
      1 \<le> done_count n')"
proof (intro conjI allI impI)
  show "alarm_pending (snd (negotiate_start w))" "done_count (fst (negotiate_start w)) = 0"
    by (simp_all add: negotiate_start_facts)
next
  show "SIGALRM_handler w =
     (Exit EXIT_FAILURE,
      w\<lparr>alarm_pending := False,
        outp := outp w @ esc ''[?25h'' @ esc ''[0m'' @ esc ''[H'' @ esc ''[2J'' @
          esc ''[1;31m*** You must connect using a real telnet client. ***'' @ esc ''[0m'' @
          [13, 0, 10]\<rparr>)"
    by (simp add: SIGALRM_handler_def put_def newline_def)
next
  fix n v n' v'
  assume "negotiate_body (n, v) = Inr (n', v') \<and> alarm_pending v'"
  with negotiate_body_armed [of n v n' v'] show "alarm_pending v" by simp
next
  fix n v n' v'
  assume h: "negotiate_body (n, v) = Inr (n', v') \<and> alarm_pending v \<and> \<not> alarm_pending v'"
  with negotiate_body_disarm [of n v n' v']
  show "\<exists>rest. inp v = IAC # SE # rest" "sb n ! 0 = TTYPE \<or> sb n ! 0 = NAWS"
    "done_count n' = done_count n + 1"
    by simp_all
next
  fix n :: nstate and v :: world and rest :: "byte list"
  assume h: "buffers_ok n \<and> inp v = IAC # SE # rest \<and> (sb n ! 0 = TTYPE \<or> sb n ! 0 = NAWS)"
  then have b: "negotiate_body (n, v) = subneg_end (n, v\<lparr>inp := rest\<rparr>)"
    by (simp add: negotiate_body_IAC [of v SE rest] negotiate_command_SE)
  from h subneg_end_ok [of n "v\<lparr>inp := rest\<rparr>"] obtain n' v' where
    e: "subneg_end (n, v\<lparr>inp := rest\<rparr>) = Inr (n', v')" by blast
  from subneg_end_done [OF e] h b e
  show "\<exists>n' v'. negotiate_body (n, v) = Inr (n', v') \<and> \<not> alarm_pending v' \<and>
         done_count n' = done_count n + 1"
    by auto
next
  fix k n' v'
  assume h: "negotiate_passes k (negotiate_start w) = Inr (n', v') \<and> \<not> alarm_pending v'"
  obtain n0 v0 where s: "negotiate_start w = (n0, v0)" by (cases "negotiate_start w")
  with negotiate_start_facts [of w] have "done_count n0 = 0" "alarm_pending v0" by simp_all
  with h s negotiate_passes_disarmed [of k n0 v0 n' v'] show "1 \<le> done_count n'"
    by simp
qed

text \<open>
  With the timer armed and nothing resolved: a payload byte leaves it armed, SE after a
  window-size payload and SE after a terminal-type payload disarm it, and the five passes
  that read one terminal-type sub-negotiation from the start of a connection leave the
  counter at 1 or more.
\<close>

theorem timer_disarmed_by_resolution_witness:
  "negotiate_body
     (\<lparr>term_buf = replicate 1024 0, done_count = 0, sb_mode = 1, do_echo = 0,
       terminal_width = 80, sb_len = 5, sb = [NAWS, 0, 120, 0, 24] @ replicate 1019 0\<rparr>,
      (initial_world [97])\<lparr>alarm_pending := True\<rparr>) =
   Inr (\<lparr>term_buf = replicate 1024 0, done_count = 0, sb_mode = 1, do_echo = 0,
         terminal_width = 80, sb_len = 6,
         sb = ([NAWS, 0, 120, 0, 24] @ replicate 1019 0)[5 := 97]\<rparr>,
        (initial_world [])\<lparr>alarm_pending := True\<rparr>) \<and>
   negotiate_body
     (\<lparr>term_buf = replicate 1024 0, done_count = 0, sb_mode = 1, do_echo = 0,
       terminal_width = 80, sb_len = 5, sb = [NAWS, 0, 120, 0, 24] @ replicate 1019 0\<rparr>,
      (initial_world [IAC, SE, 97])\<lparr>alarm_pending := True\<rparr>) =
   Inr (\<lparr>term_buf = replicate 1024 0, done_count = 1, sb_mode = 0, do_echo = 0,
         terminal_width = 120, sb_len = 5, sb = [NAWS, 0, 120, 0, 24] @ replicate 1019 0\<rparr>,
        (initial_world [97])\<lparr>alarm_pending := False\<rparr>) \<and>
   (\<exists>n' v'. negotiate_body
       (\<lparr>term_buf = replicate 1024 0, done_count = 0, sb_mode = 1, do_echo = 0,
         terminal_width = 80, sb_len = 3, sb = [TTYPE, 0, 120] @ replicate 1021 0\<rparr>,
        (initial_world [IAC, SE, 97])\<lparr>alarm_pending := True\<rparr>) = Inr (n', v') \<and>
     \<not> alarm_pending v' \<and> done_count n' = 1) \<and>
   (\<exists>n'. negotiate_passes 5 (negotiate_start (initial_world [IAC, SB, TTYPE, 0, 120, IAC, SE])) =
       Inr (n', (snd (negotiate_start (initial_world [IAC, SB, TTYPE, 0, 120, IAC, SE])))
                  \<lparr>inp := [], alarm_pending := False\<rparr>) \<and>
     1 \<le> done_count n')"
proof -
  let ?n = "\<lparr>term_buf = replicate 1024 0, done_count = 0, sb_mode = 1, do_echo = 0,
       terminal_width = 80, sb_len = 5, sb = [NAWS, 0, 120, 0, 24] @ replicate 1019 (0 :: byte)\<rparr>"
  let ?t = "\<lparr>term_buf = replicate 1024 0, done_count = 0, sb_mode = 1, do_echo = 0,
         terminal_width = 80, sb_len = 3, sb = [TTYPE, 0, 120] @ replicate 1021 (0 :: byte)\<rparr>"
  let ?w = "initial_world [IAC, SB, TTYPE, 0, 120, IAC, SE]"
  note t = timer_disarmed_by_resolution [of ?w]
  have ok: "buffers_ok ?n" "buffers_ok ?t"
    by (simp_all add: buffers_ok_def)
  have a: "negotiate_body (?n, (initial_world [97])\<lparr>alarm_pending := True\<rparr>) =
      Inr (?n\<lparr>sb := (sb ?n)[nat (sb_len ?n) := 97], sb_len := sb_len ?n + 1\<rparr>,
           (initial_world [])\<lparr>alarm_pending := True\<rparr>)"
    using negotiate_body_data [OF ok(1), of "(initial_world [97])\<lparr>alarm_pending := True\<rparr>" 97 "[]"]
    by (simp add: initial_world_def telnet_defs)
  have b: "negotiate_body (?n, (initial_world [IAC, SE, 97])\<lparr>alarm_pending := True\<rparr>) =
      Inr (?n\<lparr>sb_mode := 0, terminal_width := 120, done_count := 1\<rparr>,
           (initial_world [97])\<lparr>alarm_pending := False\<rparr>)"
    using subneg_end_naws [OF ok(1), of "(initial_world [97])\<lparr>alarm_pending := True\<rparr>"]
    by (simp add: negotiate_body_IAC [of _ SE "[97]"] negotiate_command_SE initial_world_def
          char_to_int_def)
  from t [THEN conjunct2, THEN conjunct2, THEN conjunct1, rule_format, OF conjI, OF a]
  have "alarm_pending ((initial_world [97])\<lparr>alarm_pending := True\<rparr>)"
    by simp
  from t [THEN conjunct2, THEN conjunct2, THEN conjunct2, THEN conjunct1, rule_format,
      OF conjI, OF b]
  have "sb ?n ! 0 = TTYPE \<or> sb ?n ! 0 = NAWS"
    by simp
  have c: "\<exists>n' v'. negotiate_body (?t, (initial_world [IAC, SE, 97])\<lparr>alarm_pending := True\<rparr>) =
        Inr (n', v') \<and> \<not> alarm_pending v' \<and> done_count n' = 1"
    using t [THEN conjunct2, THEN conjunct2, THEN conjunct2, THEN conjunct2, THEN conjunct1,
        rule_format, of ?t "(initial_world [IAC, SE, 97])\<lparr>alarm_pending := True\<rparr>" "[97]"] ok(2)
    by (simp add: initial_world_def)
  obtain n0 v0 where s: "negotiate_start ?w = (n0, v0)" by (cases "negotiate_start ?w")
  with negotiate_start_facts [of ?w] have n0: "buffers_ok n0" "done_count n0 = 0"
    and v0: "v0 = (set_options ?w)\<lparr>alarm_pending := True\<rparr>" by simp_all
  have i0: "inp v0 = IAC # SB # TTYPE # 0 # [120] @ IAC # SE # []" "\<not> stdin_eof v0"
    by (simp_all add: v0 initial_world_def)
  have "(0 :: byte) \<noteq> IAC" "\<forall>b\<in>set [120 :: byte]. b \<noteq> IAC" "done_count n0 < 2"
    using n0(2) by (simp_all add: telnet_defs)
  from negotiate_passes_ttype [OF n0(1) this(3) i0(2) this(1,2) i0(1)] obtain n1 where
    "negotiate_passes (length [120 :: byte] + 4) (n0, v0) =
       Inr (n1, v0\<lparr>inp := [], alarm_pending := False\<rparr>)"
    by blast
  then have p: "negotiate_passes 5 (negotiate_start ?w) =
      Inr (n1, v0\<lparr>inp := [], alarm_pending := False\<rparr>)"
    unfolding s by simp
  from t [THEN conjunct2, THEN conjunct2, THEN conjunct2, THEN conjunct2, THEN conjunct2,
      rule_format, OF conjI, OF p]
  have "1 \<le> done_count n1" by simp
  with p s have d: "\<exists>n'. negotiate_passes 5 (negotiate_start ?w) =
       Inr (n', (snd (negotiate_start ?w))\<lparr>inp := [], alarm_pending := False\<rparr>) \<and> 1 \<le> done_count n'"
    by auto
  from a b c d show ?thesis
    by simp
qed

text \<open>
  The claim as stated fails: after the five passes that read one terminal-type
  sub-negotiation the counter is 1, the loop goes on waiting for input, and the timer is
  disarmed.
\<close>

theorem timer_disarmed_at_first_resolution_counterexample:
  "\<not> isl (negotiate_passes 5 (negotiate_start (initial_world [IAC, SB, TTYPE, 0, 120, IAC, SE]))) \<and>
   done_count (fst (projr (negotiate_passes 5
      (negotiate_start (initial_world [IAC, SB, TTYPE, 0, 120, IAC, SE]))))) = 1 \<and>
   \<not> alarm_pending (snd (projr (negotiate_passes 5
      (negotiate_start (initial_world [IAC, SB, TTYPE, 0, 120, IAC, SE]))))) \<and>
   inp (snd (projr (negotiate_passes 5
      (negotiate_start (initial_world [IAC, SB, TTYPE, 0, 120, IAC, SE]))))) = []"
proof -
  let ?w = "initial_world [IAC, SB, TTYPE, 0, 120, IAC, SE]"
  obtain n0 v0 where s: "negotiate_start ?w = (n0, v0)" by (cases "negotiate_start ?w")
  with negotiate_start_facts [of ?w] have n0: "buffers_ok n0" "done_count n0 = 0"
    and v0: "v0 = (set_options ?w)\<lparr>alarm_pending := True\<rparr>" by simp_all
  have i0: "inp v0 = IAC # SB # TTYPE # 0 # [120] @ IAC # SE # []" "\<not> stdin_eof v0"
    by (simp_all add: v0 initial_world_def)
  from negotiate_passes_ttype [OF n0(1) _ i0(2) _ _ i0(1)] n0(2) obtain n1 where
    "negotiate_passes (length [120 :: byte] + 4) (n0, v0) = Inr (n1, v0\<lparr>inp := [], alarm_pending := False\<rparr>)"
    "done_count n1 = 1"
    by (auto simp: telnet_defs)
  then show ?thesis
    by (simp add: s)
qed

section \<open>The capability snapshot\<close>



section \<open>The loop counts resolutions, not kinds\<close>



end
